theory Spec2Isabelle
  imports Main "HOL-Library.Word"
begin

unbundle bit_operations_syntax

section \<open>Types and constants of the ADC driver\<close>

text \<open>
  Modelled from the spec: the header \<open>hsk_adc.h\<close> and the compiler's integer types are
  not part of the sources at hand. The driver runs on an 8051 derivative (XC878), where
  \<open>ubyte\<close> is an unsigned 8 bit value, \<open>uword\<close> an unsigned 16 bit value and \<open>int\<close>
  has 16 bits; \<open>hsk_adc_channel\<close> is a \<open>ubyte\<close>. A pointer is an address, the null
  pointer is address 0.
\<close>

type_synonym ubyte = "8 word"
type_synonym uword = "16 word"
type_synonym hsk_adc_channel = ubyte
type_synonym ptr = nat

text \<open>
  Modelled from the spec: the two resolution selectors of \<open>hsk_adc.h\<close>. They are the
  values of the data width bit of \<open>ADC_GLOBCTR\<close>, which \<open>hsk_adc_init\<close> writes with
  \<open>resolution << BIT_DW\<close> and the open functions read back.
\<close>

abbreviation (input) ADC_RESOLUTION_10 :: ubyte where "ADC_RESOLUTION_10 \<equiv> 0"
abbreviation (input) ADC_RESOLUTION_8 :: ubyte where "ADC_RESOLUTION_8 \<equiv> 1"

abbreviation (input) ADC_CLK_12MHz :: ubyte where "ADC_CLK_12MHz \<equiv> 0"
abbreviation (input) ADC_CLK_8MHz :: ubyte where "ADC_CLK_8MHz \<equiv> 1"
abbreviation (input) ADC_CLK_6MHz :: ubyte where "ADC_CLK_6MHz \<equiv> 2"
abbreviation (input) ADC_CLK_750kHz :: ubyte where "ADC_CLK_750kHz \<equiv> 3"

definition ADC_CHANNELS :: nat where "ADC_CHANNELS = 8"
definition ADC_QUEUE :: nat where "ADC_QUEUE = 4"

abbreviation (input) BIT_CHNR :: nat where "BIT_CHNR \<equiv> 0"
abbreviation (input) CNT_CHNR :: nat where "CNT_CHNR \<equiv> 3"
abbreviation (input) BIT_RESULT :: nat where "BIT_RESULT \<equiv> 6"
abbreviation (input) CNT_RESULT :: nat where "CNT_RESULT \<equiv> 10"
abbreviation (input) BIT_DW :: nat where "BIT_DW \<equiv> 6"
abbreviation (input) BIT_CTC :: nat where "BIT_CTC \<equiv> 4"
abbreviation (input) CNT_CTC :: nat where "CNT_CTC \<equiv> 2"
abbreviation (input) BIT_ANON :: nat where "BIT_ANON \<equiv> 7"
abbreviation (input) BIT_FILL :: nat where "BIT_FILL \<equiv> 0"
abbreviation (input) CNT_FILL :: nat where "CNT_FILL \<equiv> 2"
abbreviation (input) BIT_EMPTY :: nat where "BIT_EMPTY \<equiv> 5"
abbreviation (input) BIT_REQCHNR :: nat where "BIT_REQCHNR \<equiv> 0"

section \<open>The driver state\<close>

text \<open>The three functions that \<open>hsk_isr6.ADCSR0\<close> can point to.\<close>

datatype isr = ISR10 | ISR8 | ISR_WARMUP10

text \<open>
  A write to the state shared with the interrupt handler (a slot of \<open>targets\<close>, or the
  handler pointer) made by the foreground code, together with the value \<open>EADC\<close> had
  when the write happened.
\<close>

datatype shared_write = TargetWrite nat ptr bool | HandlerWrite isr bool

datatype adc_error = OutOfBounds nat

record adc_state =
  nextChannel :: hsk_adc_channel
  targets :: "ptr list"
  ADCSR0 :: isr
  EADC :: bool
  ADC_GLOBCTR :: ubyte
  ADC_INPCR0 :: ubyte
  ADC_QSR0 :: ubyte
  ADC_QINR0 :: "ubyte list"
  ADC_RESR0L :: ubyte
  ADC_RESR0H :: ubyte
  ADC_RESR0LH :: uword
  mem10 :: "ptr \<Rightarrow> uword"
  mem8 :: "ptr \<Rightarrow> ubyte"
  mem_writes :: "(ptr \<times> nat) list"
  shared_writes :: "shared_write list"

text \<open>
  \<open>targets\<close> is the array \<open>targets[ADC_CHANNELS]\<close>; both members of the union are
  pointers and share the slot. \<open>ADC_QINR0\<close> is the sequence of values written to the
  request register, oldest first. \<open>mem10\<close> and \<open>mem8\<close> are the memory behind the
  \<open>uword *\<close> and \<open>ubyte *\<close> targets; \<open>mem_writes\<close> lists every store through a target
  pointer (address and value), \<open>shared_writes\<close> every store of the foreground code to the
  state it shares with the interrupt handler.
\<close>

definition wf_state :: "adc_state \<Rightarrow> bool" where
  "wf_state s = (length (targets s) = ADC_CHANNELS)"

text \<open>Reading and writing \<open>targets[i]\<close>: an index beyond the array is an error.\<close>

definition target_at :: "ptr list \<Rightarrow> nat \<Rightarrow> adc_error + ptr" where
  "target_at ts i = (if i < ADC_CHANNELS then Inr (ts ! i) else Inl (OutOfBounds i))"

definition set_target :: "nat \<Rightarrow> ptr \<Rightarrow> adc_state \<Rightarrow> adc_error + adc_state" where
  "set_target i p s =
     (if i < ADC_CHANNELS
      then Inr (s\<lparr>targets := (targets s)[i := p],
                  shared_writes := shared_writes s @ [TargetWrite i p (EADC s)]\<rparr>)
      else Inl (OutOfBounds i))"

definition set_handler :: "isr \<Rightarrow> adc_state \<Rightarrow> adc_state" where
  "set_handler h s =
     s\<lparr>ADCSR0 := h, shared_writes := shared_writes s @ [HandlerWrite h (EADC s)]\<rparr>"

definition store10 :: "ptr \<Rightarrow> uword \<Rightarrow> adc_state \<Rightarrow> adc_state" where
  "store10 p v s = s\<lparr>mem10 := (mem10 s)(p := v), mem_writes := mem_writes s @ [(p, unat v)]\<rparr>"

definition store8 :: "ptr \<Rightarrow> ubyte \<Rightarrow> adc_state \<Rightarrow> adc_state" where
  "store8 p v s = s\<lparr>mem8 := (mem8 s)(p := v), mem_writes := mem_writes s @ [(p, unat v)]\<rparr>"

section \<open>The interrupt handlers\<close>

definition hsk_adc_isr10 :: "adc_state \<Rightarrow> adc_error + adc_state" where
  "hsk_adc_isr10 s =
     (let channel = drop_bit BIT_CHNR (ADC_RESR0L s) AND (push_bit CNT_CHNR 1 - 1);
          result = drop_bit BIT_RESULT (ADC_RESR0LH s) AND (push_bit CNT_RESULT 1 - 1)
      in case target_at (targets s) (unat channel) of
           Inl e \<Rightarrow> Inl e
         | Inr p \<Rightarrow> if p \<noteq> 0 then Inr (store10 p result s) else Inr s)"

definition hsk_adc_isr8 :: "adc_state \<Rightarrow> adc_error + adc_state" where
  "hsk_adc_isr8 s =
     (let channel = drop_bit BIT_CHNR (ADC_RESR0L s) AND (push_bit CNT_CHNR 1 - 1);
          result = ADC_RESR0H s
      in case target_at (targets s) (unat channel) of
           Inl e \<Rightarrow> Inl e
         | Inr p \<Rightarrow> if p \<noteq> 0 then Inr (store8 p result s) else Inr s)"

section \<open>Opening and closing channels\<close>

definition claim_cursor :: "hsk_adc_channel \<Rightarrow> adc_state \<Rightarrow> adc_state" where
  "claim_cursor channel s =
     (if unat (nextChannel s) \<ge> ADC_CHANNELS then s\<lparr>nextChannel := channel\<rparr> else s)"

definition hsk_adc_open10 :: "hsk_adc_channel \<Rightarrow> ptr \<Rightarrow> adc_state \<Rightarrow> adc_error + adc_state" where
  "hsk_adc_open10 channel target s =
     (let eadc = EADC s in
      if drop_bit BIT_DW (ADC_GLOBCTR s) AND 1 \<noteq> ADC_RESOLUTION_10 then Inr s
      else case set_target (unat channel) target (s\<lparr>EADC := False\<rparr>) of
             Inl e \<Rightarrow> Inl e
           | Inr s1 \<Rightarrow> Inr (claim_cursor channel (s1\<lparr>EADC := eadc\<rparr>)))"

definition hsk_adc_open8 :: "hsk_adc_channel \<Rightarrow> ptr \<Rightarrow> adc_state \<Rightarrow> adc_error + adc_state" where
  "hsk_adc_open8 channel target s =
     (let eadc = EADC s in
      if drop_bit BIT_DW (ADC_GLOBCTR s) AND 1 \<noteq> ADC_RESOLUTION_8 then Inr s
      else case set_target (unat channel) target (s\<lparr>EADC := False\<rparr>) of
             Inl e \<Rightarrow> Inl e
           | Inr s1 \<Rightarrow> Inr (claim_cursor channel (s1\<lparr>EADC := eadc\<rparr>)))"

text \<open>
  The \<open>for\<close> loop of \<open>hsk_adc_close\<close>: the bound \<open>channel + ADC_CHANNELS\<close> is computed
  in \<open>int\<close>, the index of the read is \<open>nextChannel\<close> itself.
\<close>

function close_scan :: "ptr list \<Rightarrow> hsk_adc_channel \<Rightarrow> hsk_adc_channel \<Rightarrow> adc_error + hsk_adc_channel" where
  "close_scan ts channel n =
     (if unat n < unat channel + ADC_CHANNELS
      then (case target_at ts (unat n) of
              Inl e \<Rightarrow> Inl e
            | Inr p \<Rightarrow> if p = 0 then close_scan ts channel (n + 1) else Inr n)
      else Inr n)"
  by pat_completeness auto
termination
proof (relation "measure (\<lambda>(ts, channel, n). ADC_CHANNELS - unat n)")
  show "wf (measure (\<lambda>(ts, channel, n). ADC_CHANNELS - unat n))" by simp
next
  fix ts :: "ptr list" and channel n :: hsk_adc_channel and p :: ptr
  assume "target_at ts (unat n) = Inr p"
  then have lt: "unat n < 8"
    by (simp add: target_at_def ADC_CHANNELS_def split: if_splits)
  then have "unat (n + 1) = unat n + 1"
    by (simp add: unat_word_ariths)
  with lt show "((ts, channel, n + 1), (ts, channel, n))
      \<in> measure (\<lambda>(ts, channel, n). ADC_CHANNELS - unat n)"
    by (simp add: ADC_CHANNELS_def)
qed

definition close_reschedule :: "hsk_adc_channel \<Rightarrow> adc_state \<Rightarrow> adc_error + adc_state" where
  "close_reschedule channel s =
     (if nextChannel s = channel
      then (case close_scan (targets s) channel (nextChannel s) of
              Inl e \<Rightarrow> Inl e
            | Inr n \<Rightarrow>
                (let n' = n mod 8 in
                 case target_at (targets s) (unat n') of
                   Inl e \<Rightarrow> Inl e
                 | Inr p \<Rightarrow> Inr (s\<lparr>nextChannel := (if p = 0 then 8 else n')\<rparr>)))
      else Inr s)"

definition close_unregister :: "hsk_adc_channel \<Rightarrow> adc_state \<Rightarrow> adc_error + adc_state" where
  "close_unregister channel s =
     (let eadc = EADC s in
      case set_target (unat channel) 0 (s\<lparr>EADC := False\<rparr>) of
        Inl e \<Rightarrow> Inl e
      | Inr s1 \<Rightarrow> Inr (s1\<lparr>EADC := eadc\<rparr>))"

definition hsk_adc_close :: "hsk_adc_channel \<Rightarrow> adc_state \<Rightarrow> adc_error + adc_state" where
  "hsk_adc_close channel s =
     (case close_unregister channel s of
        Inl e \<Rightarrow> Inl e
      | Inr s1 \<Rightarrow> close_reschedule channel s1)"

section \<open>Requesting conversions\<close>

definition hsk_adc_request :: "hsk_adc_channel \<Rightarrow> adc_state \<Rightarrow> bool \<times> adc_state" where
  "hsk_adc_request channel s =
     (if ADC_QSR0 s AND (push_bit BIT_FILL (push_bit CNT_FILL 1 - 1) OR push_bit BIT_EMPTY 1)
           = push_bit BIT_FILL (of_nat ADC_QUEUE - 1)
      then (False, s)
      else (True, s\<lparr>ADC_QINR0 := ADC_QINR0 s @ [push_bit BIT_REQCHNR channel]\<rparr>))"

text \<open>
  The \<open>while\<close> loop of \<open>hsk_adc_service\<close>: \<open>nextChannel\<close> is incremented as a
  \<open>ubyte\<close>, the index of the read is its value modulo \<open>ADC_CHANNELS\<close>. The loop has no
  bound of its own, so it is a partial function: \<open>None\<close> is a loop that never ends.
\<close>

partial_function (option) service_scan ::
  "ptr list \<Rightarrow> hsk_adc_channel \<Rightarrow> (adc_error + hsk_adc_channel) option" where
  "service_scan ts n =
     (let n' = n + 1 in
      case target_at ts (unat n' mod ADC_CHANNELS) of
        Inl e \<Rightarrow> Some (Inl e)
      | Inr p \<Rightarrow> if p = 0 then service_scan ts n' else Some (Inr n'))"

definition hsk_adc_service :: "adc_state \<Rightarrow> (adc_error + bool \<times> adc_state) option" where
  "hsk_adc_service s =
     (if unat (nextChannel s) \<ge> ADC_CHANNELS then Some (Inr (False, s))
      else case hsk_adc_request (nextChannel s) s of
             (True, s1) \<Rightarrow>
               (case service_scan (targets s1) (nextChannel s1) of
                  None \<Rightarrow> None
                | Some (Inl e) \<Rightarrow> Some (Inl e)
                | Some (Inr n) \<Rightarrow> Some (Inr (True, s1\<lparr>nextChannel := n mod 8\<rparr>)))
           | (False, s1) \<Rightarrow> Some (Inr (False, s1)))"

section \<open>Warm-up\<close>

text \<open>
  The scan of \<open>hsk_adc_isr_warmup10\<close>: \<open>Inr True\<close> when a registered target still holds
  \<open>-1\<close> (the handler bails out), \<open>Inr False\<close> when the loop runs to its end.
\<close>

function warmup_pending :: "adc_state \<Rightarrow> nat \<Rightarrow> adc_error + bool" where
  "warmup_pending s i =
     (if i < ADC_CHANNELS
      then (case target_at (targets s) i of
              Inl e \<Rightarrow> Inl e
            | Inr p \<Rightarrow> if p \<noteq> 0 \<and> mem10 s p = - 1 then Inr True else warmup_pending s (i + 1))
      else Inr False)"
  by pat_completeness auto
termination
  by (relation "measure (\<lambda>(s, i). ADC_CHANNELS - i)") auto

definition hsk_adc_isr_warmup10 :: "adc_state \<Rightarrow> adc_error + adc_state" where
  "hsk_adc_isr_warmup10 s =
     (case hsk_adc_isr10 s of
        Inl e \<Rightarrow> Inl e
      | Inr s1 \<Rightarrow>
          (case warmup_pending s1 0 of
             Inl e \<Rightarrow> Inl e
           | Inr True \<Rightarrow> Inr s1
           | Inr False \<Rightarrow> Inr (s1\<lparr>ADCSR0 := ISR10\<rparr>)))"

text \<open>
  A conversion-complete interrupt that is taken: the hardware presents the result
  registers and the handler that \<open>hsk_isr6.ADCSR0\<close> points to runs.
\<close>

record completion =
  c_RESR0L :: ubyte
  c_RESR0H :: ubyte
  c_RESR0LH :: uword

definition run_isr :: "adc_state \<Rightarrow> adc_error + adc_state" where
  "run_isr s =
     (case ADCSR0 s of
        ISR10 \<Rightarrow> hsk_adc_isr10 s
      | ISR8 \<Rightarrow> hsk_adc_isr8 s
      | ISR_WARMUP10 \<Rightarrow> hsk_adc_isr_warmup10 s)"

definition interrupt :: "completion \<Rightarrow> adc_state \<Rightarrow> adc_error + adc_state" where
  "interrupt c s =
     run_isr (s\<lparr>ADC_RESR0L := c_RESR0L c, ADC_RESR0H := c_RESR0H c, ADC_RESR0LH := c_RESR0LH c\<rparr>)"

fun interrupts :: "completion list \<Rightarrow> adc_state \<Rightarrow> adc_error + adc_state" where
  "interrupts [] s = Inr s"
| "interrupts (c # cs) s = (case interrupt c s of Inl e \<Rightarrow> Inl e | Inr s1 \<Rightarrow> interrupts cs s1)"

text \<open>The first \<open>for\<close> loop of \<open>hsk_adc_warmup10\<close>, which writes \<open>0xffff\<close> into every target.\<close>

function warmup_mark :: "adc_state \<Rightarrow> nat \<Rightarrow> adc_error + adc_state" where
  "warmup_mark s i =
     (if i < ADC_CHANNELS
      then (case target_at (targets s) i of
              Inl e \<Rightarrow> Inl e
            | Inr p \<Rightarrow> warmup_mark (if p \<noteq> 0 then store10 p 0xffff s else s) (i + 1))
      else Inr s)"
  by pat_completeness auto
termination
  by (relation "measure (\<lambda>(s, i). ADC_CHANNELS - i)") auto

definition warmup_hijack :: "adc_state \<Rightarrow> adc_state" where
  "warmup_hijack s = (set_handler ISR_WARMUP10 (s\<lparr>EADC := False\<rparr>))\<lparr>EADC := True\<rparr>"

text \<open>
  The driving loop of \<open>hsk_adc_warmup10\<close>. What the hardware does while the loop runs
  is given as a list of steps, one for each evaluation of the loop condition: the
  interrupts taken before it and the queue status that the following call of
  \<open>hsk_adc_service\<close> reads. After the last step no interrupt occurs any more. The
  handlers and \<open>hsk_adc_service\<close> write disjoint parts of the state, so an interrupt
  taken inside \<open>hsk_adc_service\<close> has the effect of one taken after it.
\<close>

type_synonym hw_step = "completion list \<times> ubyte"

partial_function (option) warmup_loop ::
  "hw_step list \<Rightarrow> adc_state \<Rightarrow> (adc_error + adc_state) option" where
  "warmup_loop hw s =
     (case interrupts (case hw of [] \<Rightarrow> [] | h # _ \<Rightarrow> fst h) s of
        Inl e \<Rightarrow> Some (Inl e)
      | Inr s1 \<Rightarrow>
          if ADCSR0 s1 = ISR_WARMUP10
          then (case hsk_adc_service (case hw of [] \<Rightarrow> s1 | h # _ \<Rightarrow> s1\<lparr>ADC_QSR0 := snd h\<rparr>) of
                  None \<Rightarrow> None
                | Some (Inl e) \<Rightarrow> Some (Inl e)
                | Some (Inr r) \<Rightarrow> warmup_loop (tl hw) (snd r))
          else Some (Inr s1))"

definition hsk_adc_warmup10 :: "hw_step list \<Rightarrow> adc_state \<Rightarrow> (adc_error + adc_state) option" where
  "hsk_adc_warmup10 hw s =
     (if drop_bit BIT_DW (ADC_GLOBCTR s) AND 1 \<noteq> ADC_RESOLUTION_10 then Some (Inr s)
      else case warmup_mark s 0 of
             Inl e \<Rightarrow> Some (Inl e)
           | Inr s1 \<Rightarrow> warmup_loop hw (warmup_hijack s1))"

section \<open>Initialisation\<close>

text \<open>
  The timing calculation of \<open>hsk_adc_init\<close>: \<open>resolution\<close> is 10 or 8 here, the result
  is the prescaler \<open>ctc\<close> and the sample time \<open>stc\<close> after the clamp. All of it is
  \<open>unsigned int\<close> arithmetic of 16 bits.
\<close>

definition conv_timing :: "ubyte \<Rightarrow> uword \<Rightarrow> ubyte \<times> uword" where
  "conv_timing resolution convTime0 =
     (let r = (ucast resolution :: uword);
          convTime = convTime0 * 24;
          (ctc, stc) =
            (if convTime \<le> 1 + 2 * (258 + r)
               then (ADC_CLK_12MHz, (convTime - 1) div 2 - 3 - r)
             else if convTime \<le> 1 + 3 * (258 + r)
               then (ADC_CLK_8MHz, (convTime - 1) div 3 - 3 - r)
             else if convTime \<le> 1 + 4 * (258 + r)
               then (ADC_CLK_6MHz, (convTime - 1) div 4 - 3 - r)
             else (ADC_CLK_750kHz, (convTime - 1) div 32 - 3 - r))
      in (ctc, if stc \<ge> push_bit 8 1 then push_bit 8 1 - 1 else stc))"

text \<open>
  \<open>hsk_adc_init\<close>, with the registers that the rest of the driver reads. The writes to
  \<open>ADC_LCBR\<close>, \<open>ADC_PRAR\<close>, \<open>ADC_RCR0\<close>, \<open>ADC_CHINPR\<close>, \<open>ADC_EVINPR\<close>, \<open>ADC_QMR0\<close> and
  \<open>SYSCON0\<close> and the page switches are left out: nothing else in the driver reads them.
\<close>

definition hsk_adc_init :: "ubyte \<Rightarrow> uword \<Rightarrow> adc_state \<Rightarrow> adc_state" where
  "hsk_adc_init resolution0 convTime s =
     (let s1 = s\<lparr>targets := replicate ADC_CHANNELS 0,
                 shared_writes := shared_writes s @ map (\<lambda>i. TargetWrite i 0 (EADC s)) [0..<ADC_CHANNELS]\<rparr>;
          s2 = s1\<lparr>ADC_GLOBCTR := ADC_GLOBCTR s1 AND NOT (push_bit BIT_DW 1) OR push_bit BIT_DW resolution0\<rparr>;
          resolution = (if resolution0 = ADC_RESOLUTION_10 then 10 else 8);
          (ctc, stc) = conv_timing resolution convTime;
          s3 = s2\<lparr>ADC_GLOBCTR := ADC_GLOBCTR s2 AND NOT (push_bit BIT_CTC (push_bit CNT_CTC 1 - 1))
                                   OR push_bit BIT_CTC ctc\<rparr>;
          s4 = s3\<lparr>ADC_INPCR0 := ucast stc\<rparr>;
          s5 = s4\<lparr>ADC_GLOBCTR := ADC_GLOBCTR s4 OR push_bit BIT_ANON 1\<rparr>;
          s6 = set_handler (if resolution = 10 then ISR10 else ISR8) (s5\<lparr>EADC := False\<rparr>)
      in s6\<lparr>EADC := True\<rparr>)"

section \<open>The hardware queue\<close>

text \<open>
  Modelled from the spec: how the converter reports its request queue in \<open>ADC_QSR0\<close>
  (the device is not part of the sources). The queue has \<open>ADC_QUEUE\<close> slots; the
  EMPTY bit is set when no request is pending, otherwise the filling level field holds
  the number of pending requests less one.
\<close>

definition queue_pending :: "ubyte \<Rightarrow> nat" where
  "queue_pending qsr =
     (if bit qsr BIT_EMPTY then 0
      else unat (drop_bit BIT_FILL qsr AND (push_bit CNT_FILL 1 - 1)) + 1)"

section \<open>Calling the driver\<close>

text \<open>
  The state at program start: the static initialisers of \<open>nextChannel\<close> and \<open>targets\<close>,
  the interrupt disabled, an empty request queue and nothing stored yet.
\<close>

definition reset_state :: adc_state where
  "reset_state = \<lparr>nextChannel = of_nat ADC_CHANNELS, targets = replicate ADC_CHANNELS 0,
     ADCSR0 = ISR10, EADC = False,
     ADC_GLOBCTR = 0, ADC_INPCR0 = 0, ADC_QSR0 = 0x20, ADC_QINR0 = [],
     ADC_RESR0L = 0, ADC_RESR0H = 0, ADC_RESR0LH = 0,
     mem10 = (\<lambda>_. 0), mem8 = (\<lambda>_. 0), mem_writes = [], shared_writes = []\<rparr>"

text \<open>A sequence of calls of the registry functions stops at the first error.\<close>

datatype call = Open10 hsk_adc_channel ptr | Open8 hsk_adc_channel ptr | Close hsk_adc_channel

fun do_call :: "call \<Rightarrow> adc_state \<Rightarrow> adc_error + adc_state" where
  "do_call (Open10 c p) s = hsk_adc_open10 c p s"
| "do_call (Open8 c p) s = hsk_adc_open8 c p s"
| "do_call (Close c) s = hsk_adc_close c s"

fun run_calls :: "call list \<Rightarrow> adc_state \<Rightarrow> adc_error + adc_state" where
  "run_calls [] s = Inr s"
| "run_calls (c # cs) s = (case do_call c s of Inl e \<Rightarrow> Inl e | Inr s1 \<Rightarrow> run_calls cs s1)"

declare close_scan.simps [simp del] warmup_pending.simps [simp del] warmup_mark.simps [simp del]

section \<open>Frame of the interrupt handlers\<close>

text \<open>The parts of the state that no interrupt handler changes.\<close>

definition fg_equal :: "adc_state \<Rightarrow> adc_state \<Rightarrow> bool" where
  "fg_equal s s' = (EADC s' = EADC s \<and> shared_writes s' = shared_writes s \<and>
     targets s' = targets s \<and> nextChannel s' = nextChannel s \<and>
     ADC_GLOBCTR s' = ADC_GLOBCTR s \<and> ADC_QINR0 s' = ADC_QINR0 s \<and> ADC_QSR0 s' = ADC_QSR0 s)"

section \<open>The scheduler invariant\<close>

text \<open>
  The open channels are those with a registered target. The cursor \<open>nextChannel\<close> is
  \<open>ADC_CHANNELS\<close> when no channel is open and the index of an open channel otherwise.
\<close>

definition open_channels :: "ptr list \<Rightarrow> nat list" where
  "open_channels ts = filter (\<lambda>i. ts ! i \<noteq> 0) [0..<ADC_CHANNELS]"

definition sched_inv :: "adc_state \<Rightarrow> bool" where
  "sched_inv s =
     (wf_state s \<and>
      (if open_channels (targets s) = [] then unat (nextChannel s) = ADC_CHANNELS
       else unat (nextChannel s) \<in> set (open_channels (targets s))))"

section \<open>The timing rule of the specification\<close>

text \<open>
  The rule in the words of the specification, with the formula of \<open>hsk_adc_init\<close>
  evaluated over the integers, where nothing wraps around: the clock ticks of the
  desired conversion time, the sample time a prescaler with the given clock ratio needs
  for it, the fastest of the four prescalers whose sample time fits the 8 bit register,
  and the register's maximum when none fits.
\<close>

definition ideal_stc :: "int \<Rightarrow> int \<Rightarrow> int \<Rightarrow> int" where
  "ideal_stc resolution ratio convTime = (convTime * 24 - 1) div ratio - 3 - resolution"

definition ideal_timing :: "int \<Rightarrow> int \<Rightarrow> int \<times> int" where
  "ideal_timing resolution convTime =
     (case filter (\<lambda>(ctc, ratio). ideal_stc resolution ratio convTime \<le> 255)
             [(0, 2), (1, 3), (2, 4), (3, 32)] of
        [] \<Rightarrow> (3, 255)
      | (ctc, ratio) # _ \<Rightarrow> (ctc, ideal_stc resolution ratio convTime))"

section \<open>Round-robin order\<close>

text \<open>
  The next open channel after \<open>c\<close>: the first channel with a registered target in the
  order \<open>c + 1\<close>, \<open>c + 2\<close>, ..., wrapping from 7 to 0, with \<open>c\<close> itself last.
\<close>

definition next_open :: "ptr list \<Rightarrow> nat \<Rightarrow> nat option" where
  "next_open ts c =
     (case find (\<lambda>d. ts ! ((c + d) mod ADC_CHANNELS) \<noteq> 0) [1..<ADC_CHANNELS + 1] of
        None \<Rightarrow> None
      | Some d \<Rightarrow> Some ((c + d) mod ADC_CHANNELS))"

text \<open>
  Consecutive calls of \<open>hsk_adc_service\<close>, with no other call of the driver in
  between. The hardware works on its queue meanwhile: each call finds the queue status
  given for it.
\<close>

fun service_run :: "ubyte list \<Rightarrow> adc_state \<Rightarrow> (adc_error + bool list \<times> adc_state) option" where
  "service_run [] s = Some (Inr ([], s))"
| "service_run (q # qs) s =
     (case hsk_adc_service (s\<lparr>ADC_QSR0 := q\<rparr>) of
        None \<Rightarrow> None
      | Some (Inl e) \<Rightarrow> Some (Inl e)
      | Some (Inr (b, s1)) \<Rightarrow>
          (case service_run qs s1 of
             None \<Rightarrow> None
           | Some (Inl e) \<Rightarrow> Some (Inl e)
           | Some (Inr (bs, s2)) \<Rightarrow> Some (Inr (b # bs, s2))))"

text \<open>
  The open channels in the order \<open>c\<close>, \<open>c + 1\<close>, ..., wrapping from 7 to 0, and the
  first \<open>n\<close> elements of the endless repetition of a list.
\<close>

definition ring :: "ptr list \<Rightarrow> nat \<Rightarrow> nat list" where
  "ring ts c = filter (\<lambda>i. ts ! i \<noteq> 0) (rotate c [0..<ADC_CHANNELS])"

fun upcoming :: "nat \<Rightarrow> 'a list \<Rightarrow> 'a list" where
  "upcoming 0 R = []"
| "upcoming (Suc n) R = hd R # upcoming n (rotate1 R)"

text \<open>An example: channels 5 and 2 are open, the cursor is on channel 5.\<close>

definition two_channels :: adc_state where
  "two_channels = reset_state\<lparr>nextChannel := 5, targets := [0, 0, 77, 0, 0, 88, 0, 0]\<rparr>"

text \<open>
  Calls within the contract of the registry: a channel in 0..7 and, for the open
  functions, a target that is not null.
\<close>

fun call_ok :: "call \<Rightarrow> bool" where
  "call_ok (Open10 c p) = (unat c < ADC_CHANNELS \<and> p \<noteq> 0)"
| "call_ok (Open8 c p) = (unat c < ADC_CHANNELS \<and> p \<noteq> 0)"
| "call_ok (Close c) = (unat c < ADC_CHANNELS)"

section \<open>Bit fields of the registers\<close>

lemma unat_and_mask: "unat (w AND mask n) = unat w mod 2 ^ n" for w :: "'a::len word"
proof -
  have "unat (take_bit n w) = take_bit n (unat w)" by (rule unsigned_take_bit_eq)
  then show ?thesis by (simp only: take_bit_eq_mask [symmetric] take_bit_eq_mod)
qed

lemma unat_and_7: "unat ((q::8 word) AND 7) = unat q mod 8"
  using unat_and_mask [of q 3] by (simp add: mask_eq_exp_minus_1)

lemma unat_and_3: "unat ((q::8 word) AND 3) = unat q mod 4"
  using unat_and_mask [of q 2] by (simp add: mask_eq_exp_minus_1)

lemma unat_result10: "unat (drop_bit 6 (q::16 word) AND 1023) = unat q div 64 mod 1024"
  using unat_and_mask [of "drop_bit 6 q" 10]
  by (simp add: mask_eq_exp_minus_1 unat_drop_bit_eq drop_bit_eq_div unat_div)

lemma queue_full_test: "(q AND 0x23 = (3::8 word)) \<longleftrightarrow> (\<not> bit q 5 \<and> q AND 3 = 3)"
proof -
  have l: "(q AND 0x23) AND 3 = q AND 3" by (simp add: and.assoc)
  have h: "(q AND 0x23) AND 0x20 = q AND 0x20" by (simp add: and.assoc)
  have "(0x23::8 word) = 3 OR 0x20" by simp
  then have d: "q AND 0x23 = (q AND 3) OR (q AND 0x20)"
    by (simp only: bit.conj_disj_distrib)
  have b: "bit q 5 \<longleftrightarrow> q AND 0x20 \<noteq> 0"
    using bit_iff_and_push_bit_not_eq_0 [of q 5] by simp
  show ?thesis
  proof
    assume a: "q AND 0x23 = 3"
    from l a have "q AND 3 = 3" by simp
    moreover from h a have "q AND 0x20 = 0" by simp
    ultimately show "\<not> bit q 5 \<and> q AND 3 = 3" by (simp add: b)
  next
    assume "\<not> bit q 5 \<and> q AND 3 = 3"
    then show "q AND 0x23 = 3" by (simp add: d b)
  qed
qed

lemma queue_pending_le: "queue_pending q \<le> ADC_QUEUE"
proof -
  have "unat (q AND 3) < 4" by (simp add: unat_and_3)
  then show ?thesis by (simp add: queue_pending_def ADC_QUEUE_def)
qed

lemma queue_pending_full: "queue_pending q = ADC_QUEUE \<longleftrightarrow> q AND 0x23 = 3"
proof -
  have "unat (q AND 3) = 3 \<longleftrightarrow> q AND 3 = 3"
    by (simp add: word_unat_eq_iff)
  then show ?thesis
    by (auto simp: queue_pending_def ADC_QUEUE_def queue_full_test)
qed

section \<open>Queue submission\<close>

lemma request_result:
  "hsk_adc_request channel s =
     (if queue_pending (ADC_QSR0 s) = ADC_QUEUE then (False, s)
      else (True, s\<lparr>ADC_QINR0 := ADC_QINR0 s @ [channel]\<rparr>))"
  by (simp add: hsk_adc_request_def queue_pending_full) (simp add: ADC_QUEUE_def)

text \<open>
  C5: \<open>hsk_adc_request\<close> returns false and leaves the state as it is, the request
  register included, exactly when the queue reports \<open>ADC_QUEUE\<close> (4) pending requests;
  otherwise it writes the channel to the request register and returns true. The
  pending requests and the new one together never exceed the 4 slots of the queue.
\<close>

theorem request_queue_bound:
  "hsk_adc_request channel s =
     (if queue_pending (ADC_QSR0 s) = ADC_QUEUE then (False, s)
      else (True, s\<lparr>ADC_QINR0 := ADC_QINR0 s @ [channel]\<rparr>))
   \<and> queue_pending (ADC_QSR0 s)
       + (length (ADC_QINR0 (snd (hsk_adc_request channel s))) - length (ADC_QINR0 s))
     \<le> ADC_QUEUE"
proof -
  have "queue_pending (ADC_QSR0 s) \<le> ADC_QUEUE" by (rule queue_pending_le)
  then show ?thesis
    unfolding request_result by auto
qed

section \<open>Result delivery\<close>

text \<open>
  C6: for a completion on channel \<open>c\<close> (the low three bits of \<open>ADC_RESR0L\<close>) the
  handler never reads outside \<open>targets\<close>. When \<open>targets[c]\<close> is registered, the 10 bit
  handler stores the ten result bits of \<open>ADC_RESR0LH\<close> there, the 8 bit handler the
  byte \<open>ADC_RESR0H\<close>: one store through the target pointer and no other change of
  the state. When \<open>targets[c]\<close> is null the state is left as it is, so nothing is stored.
\<close>

theorem isr_delivery:
  "(\<exists>s'. hsk_adc_isr10 s = Inr s' \<and>
      (let p = targets s ! (unat (ADC_RESR0L s) mod 8);
           r = unat (ADC_RESR0LH s) div 64 mod 1024
       in if p \<noteq> 0
          then mem10 s' = (mem10 s)(p := of_nat r) \<and> mem_writes s' = mem_writes s @ [(p, r)]
               \<and> s'\<lparr>mem10 := mem10 s, mem_writes := mem_writes s\<rparr> = s
          else s' = s))
   \<and> (\<exists>s'. hsk_adc_isr8 s = Inr s' \<and>
      (let p = targets s ! (unat (ADC_RESR0L s) mod 8);
           r = unat (ADC_RESR0H s)
       in if p \<noteq> 0
          then mem8 s' = (mem8 s)(p := of_nat r) \<and> mem_writes s' = mem_writes s @ [(p, r)]
               \<and> s'\<lparr>mem8 := mem8 s, mem_writes := mem_writes s\<rparr> = s
          else s' = s))"
proof -
  have c: "unat (ADC_RESR0L s AND 7) < ADC_CHANNELS"
    by (simp add: unat_and_7 ADC_CHANNELS_def)
  have r: "word_of_nat (unat (ADC_RESR0LH s) div 64 mod 1024) = drop_bit 6 (ADC_RESR0LH s) AND 1023"
    by (simp flip: unat_result10)
  show ?thesis
    using c
    by (simp add: hsk_adc_isr10_def hsk_adc_isr8_def target_at_def Let_def store10_def store8_def
        unat_and_7 unat_result10 r)
qed

section \<open>The warm-up sentinel\<close>

lemma warmup_mark_sentinel:
  "\<exists>s'. warmup_mark s i = Inr s' \<and> targets s' = targets s \<and> ADC_GLOBCTR s' = ADC_GLOBCTR s \<and>
        (\<forall>j. i \<le> j \<and> j < ADC_CHANNELS \<and> targets s ! j \<noteq> 0 \<longrightarrow> mem10 s' (targets s ! j) = 0xffff) \<and>
        (\<forall>q. mem10 s q = 0xffff \<longrightarrow> mem10 s' q = 0xffff)"
proof (induction s i rule: warmup_mark.induct)
  case (1 s i)
  show ?case
  proof (cases "i < ADC_CHANNELS")
    case False
    then show ?thesis by (subst warmup_mark.simps) auto
  next
    case True
    define p where "p = targets s ! i"
    define s0 where "s0 = (if p \<noteq> 0 then store10 p 0xffff s else s)"
    have t: "target_at (targets s) i = Inr p"
      using True by (simp add: target_at_def p_def)
    from "1.IH" [OF True t] obtain s' where
      m: "warmup_mark s0 (i + 1) = Inr s'" and
      ts: "targets s' = targets s0" and g: "ADC_GLOBCTR s' = ADC_GLOBCTR s0" and
      later: "\<forall>j. i + 1 \<le> j \<and> j < ADC_CHANNELS \<and> targets s0 ! j \<noteq> 0 \<longrightarrow> mem10 s' (targets s0 ! j) = 0xffff" and
      keep: "\<forall>q. mem10 s0 q = 0xffff \<longrightarrow> mem10 s' q = 0xffff"
      unfolding s0_def by blast
    have ts0: "targets s0 = targets s" and g0: "ADC_GLOBCTR s0 = ADC_GLOBCTR s"
      by (simp_all add: s0_def store10_def)
    have here: "p \<noteq> 0 \<Longrightarrow> mem10 s0 p = 0xffff" by (simp add: s0_def store10_def)
    have keep0: "\<And>q. mem10 s q = 0xffff \<Longrightarrow> mem10 s0 q = 0xffff"
      by (simp add: s0_def store10_def)
    have run: "warmup_mark s i = Inr s'"
      using True t m by (subst warmup_mark.simps) (simp add: s0_def)
    have "\<forall>j. i \<le> j \<and> j < ADC_CHANNELS \<and> targets s ! j \<noteq> 0 \<longrightarrow> mem10 s' (targets s ! j) = 0xffff"
    proof (intro allI impI)
      fix j assume j: "i \<le> j \<and> j < ADC_CHANNELS \<and> targets s ! j \<noteq> 0"
      show "mem10 s' (targets s ! j) = 0xffff"
      proof (cases "j = i")
        case True
        with j here keep show ?thesis by (simp add: p_def)
      next
        case False
        with j later ts0 show ?thesis by simp
      qed
    qed
    with run ts ts0 g g0 keep keep0 show ?thesis by simp
  qed
qed

lemma warmup_pending_total: "\<exists>b. warmup_pending s i = Inr b"
proof (induction s i rule: warmup_pending.induct)
  case (1 s i)
  show ?case
  proof (cases "i < ADC_CHANNELS")
    case False
    then show ?thesis by (subst warmup_pending.simps) auto
  next
    case True
    then have t: "target_at (targets s) i = Inr (targets s ! i)" by (simp add: target_at_def)
    show ?thesis
    proof (cases "targets s ! i \<noteq> 0 \<and> mem10 s (targets s ! i) = - 1")
      case True
      with \<open>i < ADC_CHANNELS\<close> t show ?thesis by (subst warmup_pending.simps) auto
    next
      case False
      with "1.IH" [OF \<open>i < ADC_CHANNELS\<close> t] \<open>i < ADC_CHANNELS\<close> t show ?thesis
        by (subst warmup_pending.simps) auto
    qed
  qed
qed


lemma isr10_registered:
  assumes "targets s ! (unat (ADC_RESR0L s) mod 8) = p" and "p \<noteq> 0"
  shows "hsk_adc_isr10 s = Inr (store10 p (drop_bit 6 (ADC_RESR0LH s) AND 1023) s)"
proof -
  have "unat (ADC_RESR0L s AND 7) < ADC_CHANNELS"
    by (simp add: unat_and_7 ADC_CHANNELS_def)
  with assms show ?thesis
    by (simp add: hsk_adc_isr10_def target_at_def unat_and_7)
qed

lemma result10_le: "unat (drop_bit 6 (q::16 word) AND 1023) \<le> 1023"
proof -
  have "unat q div 64 mod 1024 < 1024" by simp
  then show ?thesis by (simp only: unat_result10)
qed

lemma result10_not_sentinel: "drop_bit 6 (q::16 word) AND 1023 \<noteq> 0xffff"
proof
  assume "drop_bit 6 q AND 1023 = 0xffff"
  then have "unat (drop_bit 6 q AND 1023) = unat (0xffff :: 16 word)" by simp
  with result10_le [of q] show False by simp
qed

text \<open>
  C9: the first loop of \<open>hsk_adc_warmup10\<close> leaves \<open>0xffff\<close> in every registered target.
  A completion for the channel of such a target, delivered by the 10 bit handler or the
  warm-up handler, stores a value of at most 1023 there, so the target no longer holds
  the sentinel \<open>0xffff\<close>.
\<close>

theorem warmup_sentinel_replaced:
  assumes "c < ADC_CHANNELS" and "targets s ! c = p" and "p \<noteq> 0"
  shows "\<exists>s1. warmup_mark s 0 = Inr s1 \<and> targets s1 = targets s \<and> mem10 s1 p = 0xffff \<and>
           (\<forall>k h. unat (c_RESR0L k) mod 8 = c \<and> h \<noteq> ISR8 \<longrightarrow>
              (\<exists>s2. interrupt k (s1\<lparr>ADCSR0 := h\<rparr>) = Inr s2 \<and>
                    unat (mem10 s2 p) \<le> 1023 \<and> mem10 s2 p \<noteq> 0xffff \<and>
                    mem_writes s2 = mem_writes s1 @ [(p, unat (mem10 s2 p))]))"
proof -
  from warmup_mark_sentinel [of s 0] obtain s1 where
    m: "warmup_mark s 0 = Inr s1" and ts: "targets s1 = targets s" and
    marked: "\<forall>j. 0 \<le> j \<and> j < ADC_CHANNELS \<and> targets s ! j \<noteq> 0 \<longrightarrow> mem10 s1 (targets s ! j) = 0xffff"
    by blast
  from marked assms have sent: "mem10 s1 p = 0xffff" by auto
  have "\<exists>s2. interrupt k (s1\<lparr>ADCSR0 := h\<rparr>) = Inr s2 \<and>
              unat (mem10 s2 p) \<le> 1023 \<and> mem10 s2 p \<noteq> 0xffff \<and>
              mem_writes s2 = mem_writes s1 @ [(p, unat (mem10 s2 p))]"
    if k: "unat (c_RESR0L k) mod 8 = c" and h: "h \<noteq> ISR8" for k h
  proof -
    define s1' where "s1' = s1\<lparr>ADCSR0 := h, ADC_RESR0L := c_RESR0L k, ADC_RESR0H := c_RESR0H k,
      ADC_RESR0LH := c_RESR0LH k\<rparr>"
    define r where "r = drop_bit 6 (c_RESR0LH k) AND 1023"
    have "targets s1' ! (unat (ADC_RESR0L s1') mod 8) = p"
      using assms k ts by (simp add: s1'_def)
    from isr10_registered [OF this \<open>p \<noteq> 0\<close>]
    have d: "hsk_adc_isr10 s1' = Inr (store10 p r s1')" by (simp add: s1'_def r_def)
    obtain b where b: "warmup_pending (store10 p r s1') 0 = Inr b"
      using warmup_pending_total by blast
    have w: "hsk_adc_isr_warmup10 s1' =
        Inr (if b then store10 p r s1' else (store10 p r s1')\<lparr>ADCSR0 := ISR10\<rparr>)"
      by (simp add: hsk_adc_isr_warmup10_def d b)
    have i: "interrupt k (s1\<lparr>ADCSR0 := h\<rparr>) = run_isr s1'"
      by (simp add: interrupt_def s1'_def)
    have hs: "ADCSR0 s1' = h" by (simp add: s1'_def)
    have mw: "mem_writes s1' = mem_writes s1" by (simp add: s1'_def)
    have "\<exists>s2. run_isr s1' = Inr s2 \<and>
              unat (mem10 s2 p) \<le> 1023 \<and> mem10 s2 p \<noteq> 0xffff \<and>
              mem_writes s2 = mem_writes s1 @ [(p, unat (mem10 s2 p))]"
      using h hs result10_le [of "c_RESR0LH k"] result10_not_sentinel [of "c_RESR0LH k"]
      by (cases h) (simp_all add: run_isr_def d w store10_def mw r_def)
    then show ?thesis by (simp only: i)
  qed
  with m ts sent show ?thesis by blast
qed

theorem warmup_sentinel_replaced_witness:
  "\<exists>s1. warmup_mark (reset_state\<lparr>targets := [0, 0, 0, 77, 0, 0, 0, 0]\<rparr>) 0 = Inr s1 \<and>
      mem10 s1 77 = 0xffff \<and>
      (\<exists>s2. interrupt \<lparr>c_RESR0L = 0xC3, c_RESR0H = 0xFF, c_RESR0LH = 0xFFC3\<rparr>
               (s1\<lparr>ADCSR0 := ISR_WARMUP10\<rparr>) = Inr s2 \<and>
             unat (mem10 s2 77) \<le> 1023 \<and> mem10 s2 77 \<noteq> 0xffff)"
proof -
  let ?s = "reset_state\<lparr>targets := [0, 0, 0, 77, 0, 0, 0, 0]\<rparr>"
  let ?k = "\<lparr>c_RESR0L = 0xC3, c_RESR0H = 0xFF, c_RESR0LH = 0xFFC3\<rparr>"
  have a: "(3::nat) < ADC_CHANNELS" by (simp add: ADC_CHANNELS_def)
  have b: "targets ?s ! 3 = 77" by simp
  have c: "(77::nat) \<noteq> 0" by simp
  from warmup_sentinel_replaced [OF a b c] obtain s1 where
    m: "warmup_mark ?s 0 = Inr s1" and sent: "mem10 s1 77 = 0xffff" and
    all: "\<forall>k h. unat (c_RESR0L k) mod 8 = 3 \<and> h \<noteq> ISR8 \<longrightarrow>
              (\<exists>s2. interrupt k (s1\<lparr>ADCSR0 := h\<rparr>) = Inr s2 \<and>
                    unat (mem10 s2 77) \<le> 1023 \<and> mem10 s2 77 \<noteq> 0xffff \<and>
                    mem_writes s2 = mem_writes s1 @ [(77, unat (mem10 s2 77))])"
    by blast
  have "unat (c_RESR0L ?k) mod 8 = 3 \<and> ISR_WARMUP10 \<noteq> ISR8" by simp
  with all obtain s2 where
    "interrupt ?k (s1\<lparr>ADCSR0 := ISR_WARMUP10\<rparr>) = Inr s2" and
    "unat (mem10 s2 77) \<le> 1023" and "mem10 s2 77 \<noteq> 0xffff"
    by blast
  with m sent show ?thesis by blast
qed

section \<open>Closing the scheduled channel\<close>

lemma unat_succ_small: "unat (n :: 8 word) < 255 \<Longrightarrow> unat (n + 1) = unat n + 1"
  by (simp add: unat_word_ariths)

lemma close_scan_overrun:
  assumes "0 < unat c" and "unat n \<le> 8" and "\<forall>i. unat n \<le> i \<and> i < 8 \<longrightarrow> ts ! i = 0"
  shows "close_scan ts c n = Inl (OutOfBounds 8)"
  using assms
proof (induction "8 - unat n" arbitrary: n)
  case 0
  then have "unat n = 8" by simp
  with \<open>0 < unat c\<close> show ?case
    by (subst close_scan.simps) (simp add: target_at_def ADC_CHANNELS_def)
next
  case (Suc k)
  then have lt: "unat n < 8" by simp
  then have u: "unat (n + 1) = unat n + 1" by (simp add: unat_succ_small)
  have z: "ts ! unat n = 0" using Suc.prems lt by simp
  have "close_scan ts c (n + 1) = Inl (OutOfBounds 8)"
    using Suc u lt by (intro Suc.hyps) auto
  with lt z show ?case
    by (subst close_scan.simps) (simp add: target_at_def ADC_CHANNELS_def)
qed

lemma close_scan_finds:
  assumes "unat n \<le> m" and "m < 8" and "\<forall>i. unat n \<le> i \<and> i < m \<longrightarrow> ts ! i = 0" and "ts ! m \<noteq> 0"
  shows "close_scan ts c n = Inr (of_nat m)"
  using assms
proof (induction "m - unat n" arbitrary: n)
  case 0
  then have "unat n = m" by simp
  with \<open>m < 8\<close> have "n = of_nat m" by (simp add: word_unat_eq_iff unat_of_nat)
  with 0 \<open>unat n = m\<close> show ?case
    by (subst close_scan.simps) (simp add: target_at_def ADC_CHANNELS_def)
next
  case (Suc k)
  then have lt: "unat n < m" by simp
  with \<open>m < 8\<close> have u: "unat (n + 1) = unat n + 1" by (simp add: unat_succ_small)
  have z: "ts ! unat n = 0" using Suc.prems lt by simp
  have "close_scan ts c (n + 1) = Inr (of_nat m)"
    using Suc u lt by (intro Suc.hyps) auto
  with lt z \<open>m < 8\<close> show ?case
    by (subst close_scan.simps) (simp add: target_at_def ADC_CHANNELS_def)
qed

lemma close_scan_zero:
  assumes "unat c = 0" and "unat n \<le> 8" and "\<forall>i. unat n \<le> i \<and> i < 8 \<longrightarrow> ts ! i = 0"
  shows "close_scan ts c n = Inr 8"
  using assms
proof (induction "8 - unat n" arbitrary: n)
  case 0
  then have "unat n = 8" by simp
  then have "n = 8" by (simp add: word_unat_eq_iff)
  with \<open>unat c = 0\<close> show ?case
    by (subst close_scan.simps) (simp add: target_at_def ADC_CHANNELS_def)
next
  case (Suc k)
  then have lt: "unat n < 8" by simp
  then have u: "unat (n + 1) = unat n + 1" by (simp add: unat_succ_small)
  have z: "ts ! unat n = 0" using Suc.prems lt by simp
  have "close_scan ts c (n + 1) = Inr 8"
    using Suc u lt by (intro Suc.hyps) auto
  with lt z show ?case
    by (subst close_scan.simps) (simp add: target_at_def ADC_CHANNELS_def)
qed

lemma close_unregister_result:
  assumes "unat c < ADC_CHANNELS"
  shows "close_unregister c s =
     Inr (s\<lparr>targets := (targets s)[unat c := 0],
            shared_writes := shared_writes s @ [TargetWrite (unat c) 0 False]\<rparr>)"
  using assms by (simp add: close_unregister_def set_target_def)

text \<open>
  C10 (fails on the code): the claim is that every read of \<open>targets\<close> in the search of
  \<open>hsk_adc_close\<close> has an index in 0..7. The loop reads \<open>targets[nextChannel]\<close> with
  \<open>nextChannel\<close> running up to \<open>channel + ADC_CHANNELS - 1\<close>: whenever the closed
  channel \<open>c \<ge> 1\<close> is the cursor and no channel above it is open, the loop reads
  \<open>targets[8]\<close>, past the end of the array.
\<close>

theorem close_reads_past_array:
  assumes "wf_state s" and "0 < unat c" and "unat c < ADC_CHANNELS" and "nextChannel s = c"
    and "\<forall>i. unat c < i \<and> i < ADC_CHANNELS \<longrightarrow> targets s ! i = 0"
  shows "hsk_adc_close c s = Inl (OutOfBounds ADC_CHANNELS)"
proof -
  let ?ts = "(targets s)[unat c := 0]"
  have "\<forall>i. unat c \<le> i \<and> i < 8 \<longrightarrow> ?ts ! i = 0"
  proof (intro allI impI)
    fix i assume i: "unat c \<le> i \<and> i < 8"
    show "?ts ! i = 0"
    proof (cases "i = unat c")
      case True
      with assms show ?thesis by (simp add: wf_state_def ADC_CHANNELS_def)
    next
      case False
      with i assms show ?thesis by (simp add: ADC_CHANNELS_def)
    qed
  qed
  with assms have "close_scan ?ts c c = Inl (OutOfBounds 8)"
    by (intro close_scan_overrun) (simp_all add: ADC_CHANNELS_def)
  with assms show ?thesis
    by (simp add: hsk_adc_close_def close_unregister_result close_reschedule_def ADC_CHANNELS_def)
qed

theorem close_reads_past_array_witness:
  "wf_state (reset_state\<lparr>nextChannel := 1, targets := [0, 77, 0, 0, 0, 0, 0, 0]\<rparr>) \<and>
   hsk_adc_close 1 (reset_state\<lparr>nextChannel := 1, targets := [0, 77, 0, 0, 0, 0, 0, 0]\<rparr>)
     = Inl (OutOfBounds ADC_CHANNELS)"
proof -
  let ?s = "reset_state\<lparr>nextChannel := 1, targets := [0, 77, 0, 0, 0, 0, 0, 0]\<rparr>"
  have wf: "wf_state ?s" by (simp add: wf_state_def ADC_CHANNELS_def)
  have rest: "\<forall>i. unat (1 :: hsk_adc_channel) < i \<and> i < ADC_CHANNELS \<longrightarrow> targets ?s ! i = 0"
    by (simp add: ADC_CHANNELS_def nth_Cons split: nat.split)
  have "hsk_adc_close 1 ?s = Inl (OutOfBounds ADC_CHANNELS)"
    by (rule close_reads_past_array [OF wf _ _ _ rest]) (simp_all add: ADC_CHANNELS_def)
  with wf show ?thesis by simp
qed

text \<open>
  C1 (fails on the code): the claim is that closing the cursor's channel moves the
  cursor to the next open channel of a wrapping search. With channels 5 and 2 open and
  the cursor on 5, closing 5 should move the cursor to 2; the search does not wrap its
  index, never looks at \<open>targets[0..4]\<close> and reads \<open>targets[8]\<close> instead.
\<close>

theorem close_search_does_not_wrap:
  "run_calls [Open10 5 100, Open10 2 200, Close 5] (hsk_adc_init ADC_RESOLUTION_10 4 reset_state)
     = Inl (OutOfBounds 8)"
  by (simp add: hsk_adc_init_def reset_state_def conv_timing_def set_handler_def
      hsk_adc_open10_def set_target_def claim_cursor_def ADC_CHANNELS_def
      hsk_adc_close_def close_unregister_def close_reschedule_def close_scan.simps target_at_def)

section \<open>Critical sections\<close>

lemma isr10_cases:
  "hsk_adc_isr10 s = Inr s \<or> (\<exists>p v. hsk_adc_isr10 s = Inr (store10 p v s))"
proof -
  have "unat (ADC_RESR0L s AND 7) < ADC_CHANNELS"
    by (simp add: unat_and_7 ADC_CHANNELS_def)
  then show ?thesis
    by (cases "targets s ! unat (ADC_RESR0L s AND 7) = 0")
      (auto simp: hsk_adc_isr10_def target_at_def Let_def)
qed

lemma isr8_cases:
  "hsk_adc_isr8 s = Inr s \<or> (\<exists>p v. hsk_adc_isr8 s = Inr (store8 p v s))"
proof -
  have "unat (ADC_RESR0L s AND 7) < ADC_CHANNELS"
    by (simp add: unat_and_7 ADC_CHANNELS_def)
  then show ?thesis
    by (cases "targets s ! unat (ADC_RESR0L s AND 7) = 0")
      (auto simp: hsk_adc_isr8_def target_at_def Let_def)
qed

lemma run_isr_frame: "\<exists>s'. run_isr s = Inr s' \<and> fg_equal s s'"
proof -
  show ?thesis
  proof (cases "ADCSR0 s")
    case ISR10
    with isr10_cases [of s] show ?thesis
      by (auto simp: run_isr_def fg_equal_def store10_def)
  next
    case ISR8
    with isr8_cases [of s] show ?thesis
      by (auto simp: run_isr_def fg_equal_def store8_def)
  next
    case ISR_WARMUP10
    from isr10_cases [of s] obtain s1 where s1: "hsk_adc_isr10 s = Inr s1" and f: "fg_equal s s1"
      by (auto simp: fg_equal_def store10_def)
    obtain b where "warmup_pending s1 0 = Inr b" using warmup_pending_total by blast
    with ISR_WARMUP10 s1 f show ?thesis
      by (cases b) (auto simp: run_isr_def hsk_adc_isr_warmup10_def fg_equal_def)
  qed
qed

lemma interrupts_frame: "\<exists>s'. interrupts cs s = Inr s' \<and> fg_equal s s'"
proof (induction cs arbitrary: s)
  case Nil
  show ?case by (simp add: fg_equal_def)
next
  case (Cons c cs)
  let ?s0 = "s\<lparr>ADC_RESR0L := c_RESR0L c, ADC_RESR0H := c_RESR0H c, ADC_RESR0LH := c_RESR0LH c\<rparr>"
  from run_isr_frame [of ?s0] obtain s1 where s1: "interrupt c s = Inr s1" and f1: "fg_equal s s1"
    by (auto simp: interrupt_def fg_equal_def)
  from Cons.IH [of s1] obtain s2 where "interrupts cs s1 = Inr s2" and "fg_equal s1 s2" by blast
  with s1 f1 show ?case by (auto simp: fg_equal_def)
qed

lemma service_frame:
  assumes "hsk_adc_service s = Some (Inr (b, s'))"
  shows "EADC s' = EADC s \<and> shared_writes s' = shared_writes s \<and> targets s' = targets s
     \<and> ADCSR0 s' = ADCSR0 s \<and> ADC_GLOBCTR s' = ADC_GLOBCTR s \<and> mem_writes s' = mem_writes s"
  using assms
  by (auto simp: hsk_adc_service_def hsk_adc_request_def
      split: if_splits option.splits sum.splits prod.splits bool.splits)

lemma warmup_loop_frame:
  assumes "warmup_loop hw s = Some r"
  shows "\<forall>s'. r = Inr s' \<longrightarrow> EADC s' = EADC s \<and> shared_writes s' = shared_writes s"
proof (rule warmup_loop.raw_induct
    [where P = "\<lambda>hw s r. \<forall>s'. r = Inr s' \<longrightarrow> EADC s' = EADC s \<and> shared_writes s' = shared_writes s",
     OF _ assms])
  fix loop :: "hw_step list \<Rightarrow> adc_state \<Rightarrow> (adc_error + adc_state) option"
  fix hw s r
  assume IH: "\<And>hw s r. loop hw s = Some r \<Longrightarrow>
      \<forall>s'. r = Inr s' \<longrightarrow> EADC s' = EADC s \<and> shared_writes s' = shared_writes s"
  assume eq: "(case interrupts (case hw of [] \<Rightarrow> [] | h # _ \<Rightarrow> fst h) s of
        Inl e \<Rightarrow> Some (Inl e)
      | Inr s1 \<Rightarrow>
          if ADCSR0 s1 = ISR_WARMUP10
          then (case hsk_adc_service (case hw of [] \<Rightarrow> s1 | h # _ \<Rightarrow> s1\<lparr>ADC_QSR0 := snd h\<rparr>) of
                  None \<Rightarrow> None
                | Some (Inl e) \<Rightarrow> Some (Inl e)
                | Some (Inr r) \<Rightarrow> loop (tl hw) (snd r))
          else Some (Inr s1)) = Some r"
  obtain s1 where i: "interrupts (case hw of [] \<Rightarrow> [] | h # _ \<Rightarrow> fst h) s = Inr s1"
    and f: "fg_equal s s1"
    using interrupts_frame by blast
  show "\<forall>s'. r = Inr s' \<longrightarrow> EADC s' = EADC s \<and> shared_writes s' = shared_writes s"
  proof (cases "ADCSR0 s1 = ISR_WARMUP10")
    case False
    with eq i f show ?thesis by (auto simp: fg_equal_def)
  next
    case True
    let ?s2 = "case hw of [] \<Rightarrow> s1 | h # x \<Rightarrow> s1\<lparr>ADC_QSR0 := snd h\<rparr>"
    have e2: "EADC ?s2 = EADC s1 \<and> shared_writes ?s2 = shared_writes s1"
      by (simp split: list.split)
    show ?thesis
    proof (intro allI impI)
      fix s' assume r: "r = Inr s'"
      from eq i True r obtain b s3 where
        sv: "hsk_adc_service ?s2 = Some (Inr (b, s3))" and l: "loop (tl hw) s3 = Some (Inr s')"
        by (auto split: option.splits sum.splits)
      from IH [OF l] have "EADC s' = EADC s3 \<and> shared_writes s' = shared_writes s3" by simp
      with service_frame [OF sv] e2 f show "EADC s' = EADC s \<and> shared_writes s' = shared_writes s"
        by (simp add: fg_equal_def)
    qed
  qed
qed

lemma warmup_mark_frame:
  "\<exists>s'. warmup_mark s i = Inr s' \<and> EADC s' = EADC s \<and> shared_writes s' = shared_writes s"
proof (induction s i rule: warmup_mark.induct)
  case (1 s i)
  show ?case
  proof (cases "i < ADC_CHANNELS")
    case False
    then show ?thesis by (subst warmup_mark.simps) auto
  next
    case True
    then have t: "target_at (targets s) i = Inr (targets s ! i)" by (simp add: target_at_def)
    from "1.IH" [OF True t] True t show ?thesis
      by (subst warmup_mark.simps) (auto simp: store10_def)
  qed
qed


text \<open>
  C8 (amended): \<open>hsk_adc_open10\<close>, \<open>hsk_adc_open8\<close> and \<open>hsk_adc_close\<close> write their
  slot of \<open>targets\<close> with \<open>EADC\<close> cleared and leave \<open>EADC\<close> as it was on entry (an open
  function called in the other resolution mode writes nothing). In 10 bit mode
  \<open>hsk_adc_warmup10\<close> swaps the handler with \<open>EADC\<close> cleared as well, but then sets
  \<open>EADC\<close> instead of restoring it: the driving loop starts with the warm-up handler
  installed and the interrupt enabled, and when the function returns the interrupt is
  enabled, whatever the flag was on entry. In 8 bit mode \<open>hsk_adc_warmup10\<close> returns at
  once and changes nothing, neither the handler nor \<open>EADC\<close>.
\<close>

theorem critical_sections_mask_interrupt:
  assumes "unat c < ADC_CHANNELS"
  shows "(\<exists>s'. hsk_adc_open10 c p s = Inr s' \<and> EADC s' = EADC s \<and>
            shared_writes s' = shared_writes s @
              (if drop_bit BIT_DW (ADC_GLOBCTR s) AND 1 = ADC_RESOLUTION_10
               then [TargetWrite (unat c) p False] else []))
       \<and> (\<exists>s'. hsk_adc_open8 c p s = Inr s' \<and> EADC s' = EADC s \<and>
            shared_writes s' = shared_writes s @
              (if drop_bit BIT_DW (ADC_GLOBCTR s) AND 1 = ADC_RESOLUTION_8
               then [TargetWrite (unat c) p False] else []))
       \<and> (\<exists>s1. close_unregister c s = Inr s1 \<and> EADC s1 = EADC s \<and>
            shared_writes s1 = shared_writes s @ [TargetWrite (unat c) 0 False] \<and>
            (\<forall>s'. hsk_adc_close c s = Inr s' \<longrightarrow>
               EADC s' = EADC s \<and> shared_writes s' = shared_writes s1))
       \<and> (drop_bit BIT_DW (ADC_GLOBCTR s) AND 1 = ADC_RESOLUTION_10 \<longrightarrow>
            (\<exists>s1. warmup_mark s 0 = Inr s1 \<and> shared_writes s1 = shared_writes s \<and>
               ADCSR0 (warmup_hijack s1) = ISR_WARMUP10 \<and> EADC (warmup_hijack s1) \<and>
               shared_writes (warmup_hijack s1)
                 = shared_writes s @ [HandlerWrite ISR_WARMUP10 False] \<and>
               (\<forall>hw. hsk_adc_warmup10 hw s = warmup_loop hw (warmup_hijack s1))))
       \<and> (\<forall>hw s'. drop_bit BIT_DW (ADC_GLOBCTR s) AND 1 = ADC_RESOLUTION_10 \<and>
             hsk_adc_warmup10 hw s = Some (Inr s') \<longrightarrow>
               EADC s' \<and> shared_writes s' = shared_writes s @ [HandlerWrite ISR_WARMUP10 False])
       \<and> (\<forall>hw. drop_bit BIT_DW (ADC_GLOBCTR s) AND 1 \<noteq> ADC_RESOLUTION_10 \<longrightarrow>
             hsk_adc_warmup10 hw s = Some (Inr s))"
proof -
  have o10: "\<exists>s'. hsk_adc_open10 c p s = Inr s' \<and> EADC s' = EADC s \<and>
            shared_writes s' = shared_writes s @
              (if drop_bit BIT_DW (ADC_GLOBCTR s) AND 1 = ADC_RESOLUTION_10
               then [TargetWrite (unat c) p False] else [])"
    using assms by (simp add: hsk_adc_open10_def set_target_def claim_cursor_def)
  have o8: "\<exists>s'. hsk_adc_open8 c p s = Inr s' \<and> EADC s' = EADC s \<and>
            shared_writes s' = shared_writes s @
              (if drop_bit BIT_DW (ADC_GLOBCTR s) AND 1 = ADC_RESOLUTION_8
               then [TargetWrite (unat c) p False] else [])"
    using assms by (simp add: hsk_adc_open8_def set_target_def claim_cursor_def)
  have cl: "\<exists>s1. close_unregister c s = Inr s1 \<and> EADC s1 = EADC s \<and>
            shared_writes s1 = shared_writes s @ [TargetWrite (unat c) 0 False] \<and>
            (\<forall>s'. hsk_adc_close c s = Inr s' \<longrightarrow>
               EADC s' = EADC s \<and> shared_writes s' = shared_writes s1)"
    using assms
    by (auto simp: hsk_adc_close_def close_unregister_result close_reschedule_def Let_def
        split: if_splits sum.splits)
  from warmup_mark_frame [of s 0] obtain s1 where
    s1: "warmup_mark s 0 = Inr s1" and w1: "shared_writes s1 = shared_writes s" by blast
  have hj: "ADCSR0 (warmup_hijack s1) = ISR_WARMUP10 \<and> EADC (warmup_hijack s1) \<and>
      shared_writes (warmup_hijack s1) = shared_writes s @ [HandlerWrite ISR_WARMUP10 False]"
    by (simp add: warmup_hijack_def set_handler_def w1)
  have sw: "drop_bit BIT_DW (ADC_GLOBCTR s) AND 1 = ADC_RESOLUTION_10 \<longrightarrow>
      (\<exists>s1. warmup_mark s 0 = Inr s1 \<and> shared_writes s1 = shared_writes s \<and>
         ADCSR0 (warmup_hijack s1) = ISR_WARMUP10 \<and> EADC (warmup_hijack s1) \<and>
         shared_writes (warmup_hijack s1)
           = shared_writes s @ [HandlerWrite ISR_WARMUP10 False] \<and>
         (\<forall>hw. hsk_adc_warmup10 hw s = warmup_loop hw (warmup_hijack s1)))"
    using s1 w1 hj by (simp add: hsk_adc_warmup10_def)
  have wu: "EADC s' \<and> shared_writes s' = shared_writes s @ [HandlerWrite ISR_WARMUP10 False]"
    if m: "drop_bit BIT_DW (ADC_GLOBCTR s) AND 1 = ADC_RESOLUTION_10"
      and w: "hsk_adc_warmup10 hw s = Some (Inr s')" for hw s'
  proof -
    from m w s1 have "warmup_loop hw (warmup_hijack s1) = Some (Inr s')"
      by (simp add: hsk_adc_warmup10_def)
    from warmup_loop_frame [OF this]
    have "EADC s' = EADC (warmup_hijack s1) \<and> shared_writes s' = shared_writes (warmup_hijack s1)"
      by simp
    with hj show ?thesis by simp
  qed
  have w8: "\<forall>hw. drop_bit BIT_DW (ADC_GLOBCTR s) AND 1 \<noteq> ADC_RESOLUTION_10 \<longrightarrow>
             hsk_adc_warmup10 hw s = Some (Inr s)"
    by (simp add: hsk_adc_warmup10_def)
  from o10 o8 cl sw wu w8 show ?thesis by blast
qed

lemma warmup_one_interrupt:
  "\<exists>s'. hsk_adc_warmup10 [([\<lparr>c_RESR0L = 0, c_RESR0H = 0, c_RESR0LH = 0\<rparr>], 0x20)] reset_state
            = Some (Inr s')"
  apply (simp add: hsk_adc_warmup10_def reset_state_def)
  apply (simp add: warmup_mark.simps target_at_def ADC_CHANNELS_def)
  apply (subst warmup_loop.simps)
  apply (simp add: warmup_hijack_def set_handler_def interrupt_def run_isr_def
      hsk_adc_isr_warmup10_def hsk_adc_isr10_def target_at_def ADC_CHANNELS_def
      warmup_pending.simps)
  done

theorem critical_sections_mask_interrupt_witness:
  "unat (3 :: hsk_adc_channel) < ADC_CHANNELS \<and>
   EADC (reset_state\<lparr>EADC := True\<rparr>) \<and>
   (\<exists>s'. hsk_adc_open10 3 77 (reset_state\<lparr>EADC := True\<rparr>) = Inr s' \<and> EADC s' \<and>
      shared_writes s' = [TargetWrite 3 77 False]) \<and>
   (\<exists>s'. hsk_adc_open8 3 77 (reset_state\<lparr>EADC := True, ADC_GLOBCTR := 0x40\<rparr>) = Inr s' \<and> EADC s' \<and>
      shared_writes s' = [TargetWrite 3 77 False]) \<and>
   (\<exists>s'. hsk_adc_close 3 (reset_state\<lparr>EADC := True\<rparr>) = Inr s' \<and> EADC s' \<and>
      shared_writes s' = [TargetWrite 3 0 False]) \<and>
   \<not> EADC reset_state \<and>
   (\<exists>s'. hsk_adc_open10 3 77 reset_state = Inr s' \<and> \<not> EADC s' \<and>
      shared_writes s' = [TargetWrite 3 77 False]) \<and>
   (\<exists>s'. hsk_adc_close 3 reset_state = Inr s' \<and> \<not> EADC s' \<and>
      shared_writes s' = [TargetWrite 3 0 False]) \<and>
   (\<exists>s'. hsk_adc_warmup10 [([\<lparr>c_RESR0L = 0, c_RESR0H = 0, c_RESR0LH = 0\<rparr>], 0x20)] reset_state
            = Some (Inr s') \<and> EADC s' \<and> shared_writes s' = [HandlerWrite ISR_WARMUP10 False]) \<and>
   hsk_adc_warmup10 [] (reset_state\<lparr>ADC_GLOBCTR := 0x40\<rparr>)
     = Some (Inr (reset_state\<lparr>ADC_GLOBCTR := 0x40\<rparr>))"
proof -
  let ?on = "reset_state\<lparr>EADC := True\<rparr>"
  let ?on8 = "reset_state\<lparr>EADC := True, ADC_GLOBCTR := 0x40\<rparr>"
  let ?off8 = "reset_state\<lparr>ADC_GLOBCTR := 0x40\<rparr>"
  have c: "unat (3 :: hsk_adc_channel) < ADC_CHANNELS" by (simp add: ADC_CHANNELS_def)
  have m: "drop_bit BIT_DW (ADC_GLOBCTR reset_state) AND 1 = ADC_RESOLUTION_10"
    "drop_bit BIT_DW (ADC_GLOBCTR ?on) AND 1 = ADC_RESOLUTION_10"
    by (simp_all add: reset_state_def)
  have m8: "drop_bit BIT_DW (ADC_GLOBCTR ?on8) AND 1 = ADC_RESOLUTION_8"
    "drop_bit BIT_DW (ADC_GLOBCTR ?off8) AND 1 \<noteq> ADC_RESOLUTION_10"
    by (simp_all add: reset_state_def)
  have w0: "shared_writes reset_state = []" "shared_writes ?on = []" "shared_writes ?on8 = []"
    by (simp_all add: reset_state_def)
  have e: "EADC ?on" "EADC ?on8" "\<not> EADC reset_state" by (simp_all add: reset_state_def)
  note t = critical_sections_mask_interrupt [OF c, of 77 reset_state]
  note u = critical_sections_mask_interrupt [OF c, of 77 ?on]
  note v = critical_sections_mask_interrupt [OF c, of 77 ?on8]
  note x = critical_sections_mask_interrupt [OF c, of 77 ?off8]
  from u m(2) w0(2) e(1) have o_on: "\<exists>s'. hsk_adc_open10 3 77 ?on = Inr s' \<and> EADC s' \<and>
      shared_writes s' = [TargetWrite 3 77 False]"
    by simp
  from v m8(1) w0(3) e(2) have o_on8: "\<exists>s'. hsk_adc_open8 3 77 ?on8 = Inr s' \<and> EADC s' \<and>
      shared_writes s' = [TargetWrite 3 77 False]"
    by simp
  obtain s2 where s2: "hsk_adc_close 3 ?on = Inr s2"
    by (simp add: hsk_adc_close_def close_unregister_result [OF c] close_reschedule_def reset_state_def
        ADC_CHANNELS_def)
  from u s2 w0(2) e(1) have cl_on: "EADC s2 \<and> shared_writes s2 = [TargetWrite 3 0 False]"
    by auto
  from t m(1) w0(1) e(3) have o_off: "\<exists>s'. hsk_adc_open10 3 77 reset_state = Inr s' \<and> \<not> EADC s' \<and>
      shared_writes s' = [TargetWrite 3 77 False]"
    by simp
  obtain s4 where s4: "hsk_adc_close 3 reset_state = Inr s4"
    by (simp add: hsk_adc_close_def close_unregister_result [OF c] close_reschedule_def reset_state_def
        ADC_CHANNELS_def)
  from t s4 w0(1) e(3) have cl_off: "\<not> EADC s4 \<and> shared_writes s4 = [TargetWrite 3 0 False]"
    by auto
  obtain s3 where s3: "hsk_adc_warmup10 [([\<lparr>c_RESR0L = 0, c_RESR0H = 0, c_RESR0LH = 0\<rparr>], 0x20)]
      reset_state = Some (Inr s3)"
    using warmup_one_interrupt by blast
  from t m(1) s3 w0(1) have wu: "EADC s3 \<and> shared_writes s3 = [HandlerWrite ISR_WARMUP10 False]"
    by auto
  from x m8(2) have w8: "hsk_adc_warmup10 [] ?off8 = Some (Inr ?off8)" by blast
  from c e(1) o_on o_on8 s2 cl_on e(3) o_off s4 cl_off s3 wu w8 show ?thesis by blast
qed

text \<open>
  C8 as stated fails: a warm-up entered with the interrupt masked returns with the
  interrupt enabled.
\<close>

theorem warmup_enables_interrupt:
  "\<not> EADC reset_state \<and>
   (\<exists>s'. hsk_adc_warmup10 [([\<lparr>c_RESR0L = 0, c_RESR0H = 0, c_RESR0LH = 0\<rparr>], 0x20)] reset_state
            = Some (Inr s') \<and> EADC s')"
proof -
  obtain s' where w: "hsk_adc_warmup10 [([\<lparr>c_RESR0L = 0, c_RESR0H = 0, c_RESR0LH = 0\<rparr>], 0x20)]
      reset_state = Some (Inr s')"
    using warmup_one_interrupt by blast
  then have "warmup_loop [([\<lparr>c_RESR0L = 0, c_RESR0H = 0, c_RESR0LH = 0\<rparr>], 0x20)]
      (warmup_hijack (projr (warmup_mark reset_state 0))) = Some (Inr s')"
    using warmup_mark_frame [of reset_state 0]
    by (auto simp: hsk_adc_warmup10_def reset_state_def)
  from warmup_loop_frame [OF this] have "EADC s'"
    by (simp add: warmup_hijack_def set_handler_def)
  moreover have "\<not> EADC reset_state" by (simp add: reset_state_def)
  ultimately show ?thesis using w by blast
qed

section \<open>Warm-up without channels\<close>

lemma warmup_mark_cursor:
  "\<exists>s'. warmup_mark s i = Inr s' \<and> nextChannel s' = nextChannel s"
proof (induction s i rule: warmup_mark.induct)
  case (1 s i)
  show ?case
  proof (cases "i < ADC_CHANNELS")
    case False
    then show ?thesis by (subst warmup_mark.simps) auto
  next
    case True
    then have t: "target_at (targets s) i = Inr (targets s ! i)" by (simp add: target_at_def)
    from "1.IH" [OF True t] True t show ?thesis
      by (subst warmup_mark.simps) (auto simp: store10_def)
  qed
qed

lemma warmup_loop_idle:
  assumes "warmup_loop hw s = Some r"
  shows "\<not> (list_all (\<lambda>h. fst h = []) hw \<and> ADCSR0 s = ISR_WARMUP10 \<and>
            ADC_CHANNELS \<le> unat (nextChannel s))"
proof (rule warmup_loop.raw_induct
    [where P = "\<lambda>hw s r. \<not> (list_all (\<lambda>h. fst h = []) hw \<and> ADCSR0 s = ISR_WARMUP10 \<and>
            ADC_CHANNELS \<le> unat (nextChannel s))", OF _ assms])
  fix loop :: "hw_step list \<Rightarrow> adc_state \<Rightarrow> (adc_error + adc_state) option"
  fix hw s r
  assume IH: "\<And>hw s r. loop hw s = Some r \<Longrightarrow>
      \<not> (list_all (\<lambda>h. fst h = []) hw \<and> ADCSR0 s = ISR_WARMUP10 \<and>
            ADC_CHANNELS \<le> unat (nextChannel s))"
  assume eq: "(case interrupts (case hw of [] \<Rightarrow> [] | h # _ \<Rightarrow> fst h) s of
        Inl e \<Rightarrow> Some (Inl e)
      | Inr s1 \<Rightarrow>
          if ADCSR0 s1 = ISR_WARMUP10
          then (case hsk_adc_service (case hw of [] \<Rightarrow> s1 | h # _ \<Rightarrow> s1\<lparr>ADC_QSR0 := snd h\<rparr>) of
                  None \<Rightarrow> None
                | Some (Inl e) \<Rightarrow> Some (Inl e)
                | Some (Inr r) \<Rightarrow> loop (tl hw) (snd r))
          else Some (Inr s1)) = Some r"
  show "\<not> (list_all (\<lambda>h. fst h = []) hw \<and> ADCSR0 s = ISR_WARMUP10 \<and>
            ADC_CHANNELS \<le> unat (nextChannel s))"
  proof
    assume c: "list_all (\<lambda>h. fst h = []) hw \<and> ADCSR0 s = ISR_WARMUP10 \<and>
            ADC_CHANNELS \<le> unat (nextChannel s)"
    let ?s2 = "case hw of [] \<Rightarrow> s | h # x \<Rightarrow> s\<lparr>ADC_QSR0 := snd h\<rparr>"
    from c have i: "interrupts (case hw of [] \<Rightarrow> [] | h # _ \<Rightarrow> fst h) s = Inr s"
      by (cases hw) auto
    from c have s2: "ADCSR0 ?s2 = ISR_WARMUP10 \<and> ADC_CHANNELS \<le> unat (nextChannel ?s2)"
      by (cases hw) auto
    then have sv: "hsk_adc_service ?s2 = Some (Inr (False, ?s2))"
      by (simp add: hsk_adc_service_def)
    from eq i c sv have "loop (tl hw) ?s2 = Some r" by simp
    from IH [OF this] s2 c show False by (cases hw) auto
  qed
qed

lemma warmup_loop_returns_when_normal:
  "ADCSR0 s \<noteq> ISR_WARMUP10 \<Longrightarrow> warmup_loop [] s = Some (Inr s)"
  by (subst warmup_loop.simps) simp

text \<open>
  C3 (fails on the code): the claim is that \<open>hsk_adc_warmup10\<close> returns when no channel
  is open, with zero delivery events. In 10 bit mode, with no channel open and no
  interrupt taken, the driving loop never ends: \<open>hsk_adc_service\<close> requests nothing,
  so the handler that would restore the normal handler never runs. (The loop does
  return once the handler is the normal one: \<open>warmup_loop_returns_when_normal\<close>.)
\<close>

theorem warmup_without_channels_hangs:
  assumes "drop_bit BIT_DW (ADC_GLOBCTR s) AND 1 = ADC_RESOLUTION_10"
    and "sched_inv s" and "open_channels (targets s) = []"
    and "list_all (\<lambda>h. fst h = []) hw"
  shows "hsk_adc_warmup10 hw s = None"
proof -
  from assms have n: "unat (nextChannel s) = ADC_CHANNELS" by (simp add: sched_inv_def)
  from warmup_mark_cursor [of s 0] obtain s1 where
    s1: "warmup_mark s 0 = Inr s1" and c1: "nextChannel s1 = nextChannel s" by blast
  have "warmup_loop hw (warmup_hijack s1) = None"
  proof (cases "warmup_loop hw (warmup_hijack s1)")
    case None
    then show ?thesis .
  next
    case (Some r)
    from warmup_loop_idle [OF Some] assms n c1 show ?thesis
      by (simp add: warmup_hijack_def set_handler_def)
  qed
  with assms s1 show ?thesis by (simp add: hsk_adc_warmup10_def)
qed

theorem warmup_without_channels_hangs_witness:
  "sched_inv reset_state \<and> open_channels (targets reset_state) = [] \<and>
   hsk_adc_warmup10 [] reset_state = None"
proof -
  have o: "open_channels (targets reset_state) = []"
    by (simp add: open_channels_def reset_state_def ADC_CHANNELS_def)
  have i: "sched_inv reset_state"
    unfolding sched_inv_def o by (simp add: reset_state_def wf_state_def ADC_CHANNELS_def)
  have m: "drop_bit BIT_DW (ADC_GLOBCTR reset_state) AND 1 = ADC_RESOLUTION_10"
    by (simp add: reset_state_def)
  have "hsk_adc_warmup10 [] reset_state = None"
    by (rule warmup_without_channels_hangs [OF m i o]) simp
  with i o show ?thesis by simp
qed

section \<open>Timing configuration\<close>

text \<open>
  Where nothing wraps around the code follows the rule: for a conversion time of at
  most 2730 whose tick count is not below the minimum of the fastest prescaler (the
  sample time of the rule is not negative), \<open>conv_timing\<close> returns the prescaler and
  the sample time of \<open>ideal_timing\<close>.
\<close>

lemma unat_sample_time:
  fixes T :: uword
  assumes "unat T = t" and "1 \<le> t" and "k \<le> (t - 1) div d" and "d < 65536" and "k < 65536"
    and "0 < d"
  shows "unat ((T - 1) div of_nat d - of_nat k) = (t - 1) div d - k"
proof -
  have one: "(1 :: uword) \<le> T" using assms(1,2) by (simp add: word_le_nat_alt)
  then have a: "unat (T - 1) = t - 1" using assms(1) by (simp add: unat_sub)
  have ud: "unat (of_nat d :: uword) = d" using assms(4) by (simp add: unat_of_nat)
  have uk: "unat (of_nat k :: uword) = k" using assms(5) by (simp add: unat_of_nat)
  have b: "unat ((T - 1) div of_nat d) = (t - 1) div d"
    by (simp add: unat_div a ud)
  have "(of_nat k :: uword) \<le> (T - 1) div of_nat d"
    using assms(3) by (simp add: word_le_nat_alt b uk)
  then show ?thesis by (simp add: unat_sub b uk)
qed

lemma div_ge: "0 < d \<Longrightarrow> k * d \<le> m \<Longrightarrow> k \<le> m div d" for d k m :: nat
  by (simp add: less_eq_div_iff_mult_less_eq)

lemma div_le: "0 < d \<Longrightarrow> m \<le> d * q \<Longrightarrow> m div d \<le> q" for d q m :: nat
  using div_le_mono [of m "d * q" d] by simp

lemma clamp_pair:
  fixes S :: uword
  assumes "S = of_nat n" and "unat S = n"
  shows "(let (ctc, stc) = (k, S) in (ctc, if stc \<ge> push_bit 8 1 then push_bit 8 1 - 1 else stc))
       = (k, of_nat (min 255 n))"
proof (cases "256 \<le> n")
  case True
  with assms(2) have "(256 :: uword) \<le> S" by (simp add: word_le_nat_alt)
  with True show ?thesis by (simp add: min_def)
next
  case False
  with assms(2) have "\<not> (256 :: uword) \<le> S" by (simp add: word_le_nat_alt)
  moreover from False have "min 255 n = n" by simp
  ultimately show ?thesis using assms(1) by simp
qed

lemma conv_timing_nat:
  fixes c :: nat
  assumes "r = 10 \<or> r = 8" and "c \<le> 2730" and "3 + r \<le> (24 * c - 1) div 2"
  shows "conv_timing (of_nat r) (of_nat c) =
     (let t = 24 * c in
      if t \<le> 1 + 2 * (258 + r) then (0, of_nat ((t - 1) div 2 - (3 + r)))
      else if t \<le> 1 + 3 * (258 + r) then (1, of_nat ((t - 1) div 3 - (3 + r)))
      else if t \<le> 1 + 4 * (258 + r) then (2, of_nat ((t - 1) div 4 - (3 + r)))
      else (3, of_nat (min 255 ((t - 1) div 32 - (3 + r)))))"
proof -
  define t where "t = 24 * c"
  define T :: uword where "T = of_nat c * 24"
  define S :: "uword \<Rightarrow> uword" where "S D = (T - 1) div D - 3 - of_nat r" for D
  define n :: "nat \<Rightarrow> nat" where "n d = (t - 1) div d - (3 + r)" for d
  have uT: "unat T = t"
    using assms(2) by (simp add: T_def t_def unat_word_ariths unat_of_nat)
  have t1: "1 \<le> t" using assms(1,3) by (auto simp: t_def)
  have R: "(ucast (of_nat r :: ubyte) :: uword) = of_nat r" using assms(1) by auto
  have k: "3 + r < 65536" using assms(1) by auto
  have sub: "(x :: uword) - 3 - of_nat r = x - of_nat (3 + r)" for x by simp
  have le: "T \<le> of_nat m \<longleftrightarrow> t \<le> m" if "m < 65536" for m
    using that by (simp add: word_le_nat_alt uT unat_of_nat)
  have c2: "T \<le> 1 + 2 * (258 + of_nat r) \<longleftrightarrow> t \<le> 1 + 2 * (258 + r)"
    using le [of "1 + 2 * (258 + r)"] assms(1) by auto
  have c3: "T \<le> 1 + 3 * (258 + of_nat r) \<longleftrightarrow> t \<le> 1 + 3 * (258 + r)"
    using le [of "1 + 3 * (258 + r)"] assms(1) by auto
  have c4: "T \<le> 1 + 4 * (258 + of_nat r) \<longleftrightarrow> t \<le> 1 + 4 * (258 + r)"
    using le [of "1 + 4 * (258 + r)"] assms(1) by auto
  have w: "S (of_nat d) = of_nat (n d) \<and> unat (S (of_nat d)) = n d"
    if "3 + r \<le> (t - 1) div d" "0 < d" "d < 65536" for d
  proof -
    have "unat ((T - 1) div of_nat d - of_nat (3 + r)) = (t - 1) div d - (3 + r)"
      using uT t1 that(1) that(3) k that(2) by (rule unat_sample_time)
    then have u: "unat (S (of_nat d)) = n d"
      by (simp only: S_def n_def sub)
    have "(t - 1) div d \<le> t" by (rule le_trans [OF div_le_dividend]) simp
    moreover have "t < 65536" using assms(2) by (simp add: t_def)
    ultimately have "n d < 65536" by (simp add: n_def)
    with u show ?thesis by (simp add: word_unat_eq_iff unat_of_nat)
  qed
  have pair: "(let (ctc, stc) = (k, S (of_nat d))
               in (ctc, if stc \<ge> push_bit 8 1 then push_bit 8 1 - 1 else stc))
       = (k, of_nat (min 255 (n d)))"
    if "3 + r \<le> (t - 1) div d" "0 < d" "d < 65536" for d and k :: ubyte
    by (rule clamp_pair [OF conjunct1 [OF w [OF that]] conjunct2 [OF w [OF that]]])
  have h2: "3 + r \<le> (t - 1) div 2" using assms(3) by (simp add: t_def)
  have p2: "(let (ctc, stc) = (0 :: ubyte, S 2)
               in (ctc, if stc \<ge> push_bit 8 1 then push_bit 8 1 - 1 else stc))
       = (0, of_nat (min 255 (n 2)))"
    using pair [OF h2, of 0] by simp
  have p3: "(let (ctc, stc) = (1 :: ubyte, S 3)
               in (ctc, if stc \<ge> push_bit 8 1 then push_bit 8 1 - 1 else stc))
       = (1, of_nat (min 255 (n 3)))"
    if "\<not> t \<le> 1 + 2 * (258 + r)"
  proof -
    from that assms(1) have "(3 + r) * 3 \<le> t - 1" by auto
    then have "3 + r \<le> (t - 1) div 3" by (intro div_ge) simp_all
    from pair [OF this, of 1] show ?thesis by simp
  qed
  have p4: "(let (ctc, stc) = (2 :: ubyte, S 4)
               in (ctc, if stc \<ge> push_bit 8 1 then push_bit 8 1 - 1 else stc))
       = (2, of_nat (min 255 (n 4)))"
    if "\<not> t \<le> 1 + 3 * (258 + r)"
  proof -
    from that assms(1) have "(3 + r) * 4 \<le> t - 1" by auto
    then have "3 + r \<le> (t - 1) div 4" by (intro div_ge) simp_all
    from pair [OF this, of 2] show ?thesis by simp
  qed
  have p32: "(let (ctc, stc) = (3 :: ubyte, S 32)
               in (ctc, if stc \<ge> push_bit 8 1 then push_bit 8 1 - 1 else stc))
       = (3, of_nat (min 255 (n 32)))"
    if "\<not> t \<le> 1 + 4 * (258 + r)"
  proof -
    from that assms(1) have "(3 + r) * 32 \<le> t - 1" by auto
    then have "3 + r \<le> (t - 1) div 32" by (intro div_ge) simp_all
    from pair [OF this, of 3] show ?thesis by simp
  qed
  have m2: "min 255 (n 2) = n 2" if "t \<le> 1 + 2 * (258 + r)"
  proof -
    from that have "t - 1 \<le> 2 * (258 + r)" by simp
    then have "(t - 1) div 2 \<le> 258 + r" by (intro div_le) simp_all
    then show ?thesis by (simp add: n_def)
  qed
  have m3: "min 255 (n 3) = n 3" if "t \<le> 1 + 3 * (258 + r)"
  proof -
    from that have "t - 1 \<le> 3 * (258 + r)" by simp
    then have "(t - 1) div 3 \<le> 258 + r" by (intro div_le) simp_all
    then show ?thesis by (simp add: n_def)
  qed
  have m4: "min 255 (n 4) = n 4" if "t \<le> 1 + 4 * (258 + r)"
  proof -
    from that have "t - 1 \<le> 4 * (258 + r)" by simp
    then have "(t - 1) div 4 \<le> 258 + r" by (intro div_le) simp_all
    then show ?thesis by (simp add: n_def)
  qed
  have if_let: "(let p = (if b then x else y) in f p) = (if b then (let p = x in f p) else (let p = y in f p))"
    for b and x y :: "ubyte \<times> uword" and f :: "ubyte \<times> uword \<Rightarrow> ubyte \<times> uword"
    by simp
  have lhs: "conv_timing (of_nat r) (of_nat c) =
     (let (ctc, stc) =
            (if T \<le> 1 + 2 * (258 + of_nat r) then (0, S 2)
             else if T \<le> 1 + 3 * (258 + of_nat r) then (1, S 3)
             else if T \<le> 1 + 4 * (258 + of_nat r) then (2, S 4)
             else (3, S 32))
      in (ctc, if stc \<ge> push_bit 8 1 then push_bit 8 1 - 1 else stc))"
    unfolding conv_timing_def S_def T_def R Let_def by (rule refl)
  have rhs: "(let t = 24 * c in
      if t \<le> 1 + 2 * (258 + r) then (0 :: ubyte, of_nat ((t - 1) div 2 - (3 + r)) :: uword)
      else if t \<le> 1 + 3 * (258 + r) then (1, of_nat ((t - 1) div 3 - (3 + r)))
      else if t \<le> 1 + 4 * (258 + r) then (2, of_nat ((t - 1) div 4 - (3 + r)))
      else (3, of_nat (min 255 ((t - 1) div 32 - (3 + r))))) =
     (if t \<le> 1 + 2 * (258 + r) then (0, of_nat (n 2))
      else if t \<le> 1 + 3 * (258 + r) then (1, of_nat (n 3))
      else if t \<le> 1 + 4 * (258 + r) then (2, of_nat (n 4))
      else (3, of_nat (min 255 (n 32))))"
    unfolding n_def t_def Let_def by (rule refl)
  consider (a) "t \<le> 1 + 2 * (258 + r)"
    | (b) "\<not> t \<le> 1 + 2 * (258 + r)" "t \<le> 1 + 3 * (258 + r)"
    | (c) "\<not> t \<le> 1 + 2 * (258 + r)" "\<not> t \<le> 1 + 3 * (258 + r)" "t \<le> 1 + 4 * (258 + r)"
    | (d) "\<not> t \<le> 1 + 2 * (258 + r)" "\<not> t \<le> 1 + 3 * (258 + r)" "\<not> t \<le> 1 + 4 * (258 + r)"
    by blast
  then show ?thesis
  proof cases
    case a
    show ?thesis
      unfolding lhs rhs by (simp only: c2 a if_True p2 m2 [OF a])
  next
    case b
    show ?thesis
      unfolding lhs rhs by (simp only: c2 c3 b if_True if_False p3 [OF b(1)] m3 [OF b(2)])
  next
    case c
    show ?thesis
      unfolding lhs rhs
      by (simp only: c2 c3 c4 c if_True if_False p4 [OF c(2)] m4 [OF c(3)])
  next
    case d
    show ?thesis
      unfolding lhs rhs
      by (simp only: c2 c3 c4 d if_True if_False p32 [OF d(3)])
  qed
qed


lemma ideal_timing_cases:
  fixes c r :: int
  assumes "r = 10 \<or> r = 8"
  shows "ideal_timing r c =
     (if 24 * c \<le> 1 + 2 * (258 + r) then (0, ideal_stc r 2 c)
      else if 24 * c \<le> 1 + 3 * (258 + r) then (1, ideal_stc r 3 c)
      else if 24 * c \<le> 1 + 4 * (258 + r) then (2, ideal_stc r 4 c)
      else (3, min 255 (ideal_stc r 32 c)))"
proof -
  have f2: "(ideal_stc r 2 c \<le> 255) = (24 * c \<le> 1 + 2 * (258 + r))"
    unfolding ideal_stc_def using assms by presburger
  have f3: "(ideal_stc r 3 c \<le> 255) = (24 * c \<le> 1 + 3 * (258 + r))"
    unfolding ideal_stc_def using assms by presburger
  have f4: "(ideal_stc r 4 c \<le> 255) = (24 * c \<le> 1 + 4 * (258 + r))"
    unfolding ideal_stc_def using assms by presburger
  have m: "(if ideal_stc r 32 c \<le> 255 then (3 :: int, ideal_stc r 32 c) else (3, 255))
      = (3, min 255 (ideal_stc r 32 c))"
    by (simp add: min_def)
  have "ideal_timing r c =
     (if ideal_stc r 2 c \<le> 255 then (0, ideal_stc r 2 c)
      else if ideal_stc r 3 c \<le> 255 then (1, ideal_stc r 3 c)
      else if ideal_stc r 4 c \<le> 255 then (2, ideal_stc r 4 c)
      else if ideal_stc r 32 c \<le> 255 then (3, ideal_stc r 32 c) else (3, 255))"
    unfolding ideal_timing_def by simp
  then show ?thesis by (simp only: f2 f3 f4 m)
qed


lemma stc_int:
  fixes c r d :: nat
  assumes "1 \<le> c" and "3 + r \<le> (24 * c - 1) div d"
  shows "int ((24 * c - 1) div d - (3 + r)) = ideal_stc (int r) (int d) (int c)"
proof -
  have "int (24 * c - 1) = int c * 24 - 1" using assms(1) by (simp add: of_nat_diff)
  then have "int ((24 * c - 1) div d) = (int c * 24 - 1) div int d"
    by (simp add: zdiv_int)
  with assms(2) show ?thesis by (simp add: ideal_stc_def of_nat_diff)
qed

lemma conv_timing_in_range:
  fixes c r :: nat
  assumes "r = 10 \<or> r = 8" and "c \<le> 2730" and "0 \<le> ideal_stc (int r) 2 (int c)"
  shows "conv_timing (of_nat r) (of_nat c) =
     (of_int (fst (ideal_timing (int r) (int c))), of_int (snd (ideal_timing (int r) (int c))))"
proof -
  have c1: "1 \<le> c"
  proof (rule ccontr)
    assume "\<not> 1 \<le> c"
    then have "c = 0" by simp
    with assms(3) show False by (simp add: ideal_stc_def)
  qed
  have "int (24 * c - 1) = int c * 24 - 1" using c1 by (simp add: of_nat_diff)
  then have "int ((24 * c - 1) div 2) = (int c * 24 - 1) div 2"
    by (simp add: zdiv_int)
  with assms(3) have "int (3 + r) \<le> int ((24 * c - 1) div 2)"
    by (simp add: ideal_stc_def)
  then have h2: "3 + r \<le> (24 * c - 1) div 2" by (simp only: of_nat_le_iff)
  note L = conv_timing_nat [OF assms(1,2) h2, unfolded Let_def]
  have ri: "int r = 10 \<or> int r = 8" using assms(1) by auto
  note I = ideal_timing_cases [OF ri, of "int c"]
  have cd2: "(24 * int c \<le> 1 + 2 * (258 + int r)) = (24 * c \<le> 1 + 2 * (258 + r))"
    by arith
  have cd3: "(24 * int c \<le> 1 + 3 * (258 + int r)) = (24 * c \<le> 1 + 3 * (258 + r))"
    by arith
  have cd4: "(24 * int c \<le> 1 + 4 * (258 + int r)) = (24 * c \<le> 1 + 4 * (258 + r))"
    by arith
  consider (a) "24 * c \<le> 1 + 2 * (258 + r)"
    | (b) "\<not> 24 * c \<le> 1 + 2 * (258 + r)" "24 * c \<le> 1 + 3 * (258 + r)"
    | (c) "\<not> 24 * c \<le> 1 + 2 * (258 + r)" "\<not> 24 * c \<le> 1 + 3 * (258 + r)"
          "24 * c \<le> 1 + 4 * (258 + r)"
    | (d) "\<not> 24 * c \<le> 1 + 2 * (258 + r)" "\<not> 24 * c \<le> 1 + 3 * (258 + r)"
          "\<not> 24 * c \<le> 1 + 4 * (258 + r)"
    by blast
  then show ?thesis
  proof cases
    case a
    have z: "int ((24 * c - 1) div 2 - (3 + r)) = ideal_stc (int r) (int 2) (int c)"
      using c1 h2 by (rule stc_int)
    from a have l: "conv_timing (of_nat r) (of_nat c) = (0, of_nat ((24 * c - 1) div 2 - (3 + r)))"
      by (simp only: L if_True)
    from a have i: "ideal_timing (int r) (int c) = (0, ideal_stc (int r) 2 (int c))"
      by (simp only: I cd2 if_True)
    show ?thesis unfolding l i using z [symmetric] by simp
  next
    case b
    from b(1) assms(1) have "(3 + r) * 3 \<le> 24 * c - 1" by auto
    then have "3 + r \<le> (24 * c - 1) div 3" by (intro div_ge) simp_all
    with c1 have z: "int ((24 * c - 1) div 3 - (3 + r)) = ideal_stc (int r) (int 3) (int c)"
      by (rule stc_int)
    from b have l: "conv_timing (of_nat r) (of_nat c) = (1, of_nat ((24 * c - 1) div 3 - (3 + r)))"
      by (simp only: L if_True if_False)
    from b have i: "ideal_timing (int r) (int c) = (1, ideal_stc (int r) 3 (int c))"
      by (simp only: I cd2 cd3 if_True if_False)
    show ?thesis unfolding l i using z [symmetric] by simp
  next
    case c
    from c(2) assms(1) have "(3 + r) * 4 \<le> 24 * c - 1" by auto
    then have "3 + r \<le> (24 * c - 1) div 4" by (intro div_ge) simp_all
    with c1 have z: "int ((24 * c - 1) div 4 - (3 + r)) = ideal_stc (int r) (int 4) (int c)"
      by (rule stc_int)
    from c have l: "conv_timing (of_nat r) (of_nat c) = (2, of_nat ((24 * c - 1) div 4 - (3 + r)))"
      by (simp only: L if_True if_False)
    from c have i: "ideal_timing (int r) (int c) = (2, ideal_stc (int r) 4 (int c))"
      by (simp only: I cd2 cd3 cd4 if_True if_False)
    show ?thesis unfolding l i using z [symmetric] by simp
  next
    case d
    from d(3) assms(1) have "(3 + r) * 32 \<le> 24 * c - 1" by auto
    then have "3 + r \<le> (24 * c - 1) div 32" by (intro div_ge) simp_all
    with c1 have z: "int ((24 * c - 1) div 32 - (3 + r)) = ideal_stc (int r) (int 32) (int c)"
      by (rule stc_int)
    from d have l: "conv_timing (of_nat r) (of_nat c)
        = (3, of_nat (min 255 ((24 * c - 1) div 32 - (3 + r))))"
      by (simp only: L if_True if_False)
    from d have i: "ideal_timing (int r) (int c) = (3, min 255 (ideal_stc (int r) 32 (int c)))"
      by (simp only: I cd2 cd3 cd4 if_True if_False)
    have e: "min 255 (ideal_stc (int r) 32 (int c)) = int (min 255 ((24 * c - 1) div 32 - (3 + r)))"
      using z by (simp add: of_nat_min)
    show ?thesis unfolding l i e by simp
  qed
qed

text \<open>
  C4 (fails on the code): the claim is that for every conversion time the fastest
  prescaler with a sample time of at most 255 is selected and a sample time beyond the
  register is clamped to 255, never wrapped. For a conversion time of 2754 the tick
  count \<open>2754 * 24\<close> wraps around to 560 in 16 bits: \<open>hsk_adc_init\<close> selects the 8 MHz
  prescaler and writes the sample time 173, where the rule asks for the slowest
  prescaler and the clamped value 255. (Up to 2730 the code agrees with the rule:
  \<open>conv_timing_in_range\<close>.)
\<close>

theorem conv_timing_wraps:
  "ADC_INPCR0 (hsk_adc_init ADC_RESOLUTION_10 2754 reset_state) = 173 \<and>
   drop_bit BIT_CTC (ADC_GLOBCTR (hsk_adc_init ADC_RESOLUTION_10 2754 reset_state)) AND 3
     = ADC_CLK_8MHz \<and>
   conv_timing 10 2754 = (ADC_CLK_8MHz, 173) \<and>
   ideal_timing 10 2754 = (3, 255)"
  by (simp add: hsk_adc_init_def conv_timing_def reset_state_def set_handler_def
      ideal_timing_def ideal_stc_def ADC_CHANNELS_def)

section \<open>Servicing the channels\<close>

lemma service_scan_finds:
  assumes "unat n + k + 1 < 256"
    and "\<forall>j. 1 \<le> j \<and> j \<le> k \<longrightarrow> ts ! ((unat n + j) mod 8) = 0"
    and "ts ! ((unat n + k + 1) mod 8) \<noteq> 0"
  shows "service_scan ts n = Some (Inr (n + of_nat (k + 1)))"
  using assms
proof (induction k arbitrary: n)
  case 0
  then have u: "unat (n + 1) = unat n + 1" by (simp add: unat_succ_small)
  with 0 show ?case
    by (subst service_scan.simps) (simp add: target_at_def ADC_CHANNELS_def)
next
  case (Suc k)
  then have u: "unat (n + 1) = unat n + 1" by (simp add: unat_succ_small)
  from Suc.prems(2) [rule_format, of 1] have z: "ts ! ((unat n + 1) mod 8) = 0" by simp
  have "service_scan ts (n + 1) = Some (Inr ((n + 1) + of_nat (k + 1)))"
  proof (rule Suc.IH)
    show "unat (n + 1) + k + 1 < 256" using Suc.prems u by simp
    show "\<forall>j. 1 \<le> j \<and> j \<le> k \<longrightarrow> ts ! ((unat (n + 1) + j) mod 8) = 0"
    proof (intro allI impI)
      fix j assume "1 \<le> j \<and> j \<le> k"
      then have "1 \<le> j + 1 \<and> j + 1 \<le> Suc k" by simp
      with Suc.prems(2) have "ts ! ((unat n + (j + 1)) mod 8) = 0" by blast
      then show "ts ! ((unat (n + 1) + j) mod 8) = 0" by (simp add: u)
    qed
    show "ts ! ((unat (n + 1) + k + 1) mod 8) \<noteq> 0"
      using Suc.prems(3) by (simp add: u)
  qed
  with z u show ?case
    by (subst service_scan.simps) (simp add: target_at_def ADC_CHANNELS_def add.assoc)
qed

lemma next_open_Some:
  "next_open ts c = Some m \<longleftrightarrow>
     (\<exists>d. 1 \<le> d \<and> d \<le> 8 \<and> m = (c + d) mod 8 \<and> ts ! ((c + d) mod 8) \<noteq> 0 \<and>
          (\<forall>j. 1 \<le> j \<and> j < d \<longrightarrow> ts ! ((c + j) mod 8) = 0))"
proof
  assume "next_open ts c = Some m"
  then obtain d where f: "find (\<lambda>d. ts ! ((c + d) mod 8) \<noteq> 0) [1..<9] = Some d"
    and m: "m = (c + d) mod 8"
    by (auto simp: next_open_def ADC_CHANNELS_def split: option.splits)
  from f obtain i where i: "i < 8" "ts ! ((c + [1..<9] ! i) mod 8) \<noteq> 0" "d = [1..<9] ! i"
    "\<forall>j<i. \<not> ts ! ((c + [1..<9] ! j) mod 8) \<noteq> 0"
    by (auto simp: find_Some_iff)
  from i(1,3) have d: "d = i + 1" by (simp add: nth_upt)
  have "\<forall>j. 1 \<le> j \<and> j < d \<longrightarrow> ts ! ((c + j) mod 8) = 0"
  proof (intro allI impI)
    fix j assume j: "1 \<le> j \<and> j < d"
    with d have "j - 1 < i" by arith
    with i(4) have "ts ! ((c + [1..<9] ! (j - 1)) mod 8) = 0" by blast
    moreover from j d i(1) have "[1..<9] ! (j - 1) = j" by (simp add: nth_upt)
    ultimately show "ts ! ((c + j) mod 8) = 0" by simp
  qed
  with i d m show "\<exists>d. 1 \<le> d \<and> d \<le> 8 \<and> m = (c + d) mod 8 \<and> ts ! ((c + d) mod 8) \<noteq> 0 \<and>
          (\<forall>j. 1 \<le> j \<and> j < d \<longrightarrow> ts ! ((c + j) mod 8) = 0)"
    by (intro exI [of _ d]) (simp add: nth_upt)
next
  assume "\<exists>d. 1 \<le> d \<and> d \<le> 8 \<and> m = (c + d) mod 8 \<and> ts ! ((c + d) mod 8) \<noteq> 0 \<and>
          (\<forall>j. 1 \<le> j \<and> j < d \<longrightarrow> ts ! ((c + j) mod 8) = 0)"
  then obtain d where d: "1 \<le> d" "d \<le> 8" "m = (c + d) mod 8" "ts ! ((c + d) mod 8) \<noteq> 0"
    "\<forall>j. 1 \<le> j \<and> j < d \<longrightarrow> ts ! ((c + j) mod 8) = 0" by blast
  have "find (\<lambda>d. ts ! ((c + d) mod 8) \<noteq> 0) [1..<9] = Some d"
    unfolding find_Some_iff
  proof (intro exI [of _ "d - 1"] conjI allI impI)
    show "d - 1 < length [1..<9]" using d by simp
    show "ts ! ((c + [1..<9] ! (d - 1)) mod 8) \<noteq> 0" using d by (simp add: nth_upt)
    show "d = [1..<9] ! (d - 1)" using d by (simp add: nth_upt)
    fix j assume "j < d - 1"
    with d have e: "[1..<9] ! j = j + 1" and r: "1 \<le> j + 1 \<and> j + 1 < d" by (simp_all add: nth_upt)
    from d(5) [rule_format, OF r] show "\<not> ts ! ((c + [1..<9] ! j) mod 8) \<noteq> 0"
      unfolding e by simp
  qed
  with d show "next_open ts c = Some m"
    by (simp add: next_open_def ADC_CHANNELS_def)
qed

lemma open_channels_iff: "i \<in> set (open_channels ts) \<longleftrightarrow> i < 8 \<and> ts ! i \<noteq> 0"
  by (auto simp: open_channels_def ADC_CHANNELS_def)

lemma open_channels_empty: "open_channels ts = [] \<longleftrightarrow> (\<forall>i<8. ts ! i = 0)"
  by (auto simp: open_channels_def ADC_CHANNELS_def filter_empty_conv)

text \<open>
  The \<open>while\<close> loop of \<open>hsk_adc_service\<close> ends only when it finds a registered target,
  and from a channel index there is a next open channel as soon as one channel is open.
\<close>

lemma service_scan_Some_open:
  assumes "service_scan ts n = Some r"
  shows "open_channels ts \<noteq> []"
proof (rule service_scan.raw_induct [where P = "\<lambda>ts n r. open_channels ts \<noteq> []", OF _ assms])
  fix scan :: "ptr list \<Rightarrow> hsk_adc_channel \<Rightarrow> (adc_error + hsk_adc_channel) option"
  fix ts n r
  assume IH: "\<And>ts n r. scan ts n = Some r \<Longrightarrow> open_channels ts \<noteq> []"
  assume eq: "(let n' = n + 1 in
      case target_at ts (unat n' mod ADC_CHANNELS) of
        Inl e \<Rightarrow> Some (Inl e)
      | Inr p \<Rightarrow> if p = 0 then scan ts n' else Some (Inr n')) = Some r"
  define i where "i = unat (n + 1) mod 8"
  have i: "i < 8" by (simp add: i_def)
  then have t: "target_at ts (unat (n + 1) mod ADC_CHANNELS) = Inr (ts ! i)"
    by (simp add: target_at_def ADC_CHANNELS_def i_def)
  show "open_channels ts \<noteq> []"
  proof (cases "ts ! i = 0")
    case True
    with eq t have "scan ts (n + 1) = Some r" by (simp add: Let_def)
    then show ?thesis by (rule IH)
  next
    case False
    with i have "i \<in> set (open_channels ts)" by (simp add: open_channels_iff)
    then show ?thesis by auto
  qed
qed

lemma service_scan_none: "open_channels ts = [] \<Longrightarrow> service_scan ts n = None"
  using service_scan_Some_open [of ts n] by (cases "service_scan ts n") auto

lemma next_open_any:
  assumes "c < 8" and "open_channels ts \<noteq> []"
  shows "\<exists>m. next_open ts c = Some m"
proof (cases "find (\<lambda>d. ts ! ((c + d) mod 8) \<noteq> 0) [1..<9]")
  case None
  then have all: "\<forall>d\<in>set [1..<9]. ts ! ((c + d) mod 8) = 0" by (simp add: find_None_iff)
  from assms(2) obtain i where i: "i < 8" "ts ! i \<noteq> 0"
    by (auto simp: open_channels_empty)
  define d where "d = (if c < i then i - c else i + 8 - c)"
  have "d \<in> set [1..<9]" using assms(1) i(1) by (auto simp: d_def)
  moreover have "(c + d) mod 8 = i" using assms(1) i(1) by (auto simp: d_def)
  ultimately have "ts ! i = 0" using all by auto
  with i(2) show ?thesis by simp
next
  case (Some d)
  then show ?thesis by (simp add: next_open_def ADC_CHANNELS_def)
qed

text \<open>
  One call of \<open>hsk_adc_service\<close>, in any state: it returns false and changes nothing
  when the cursor is \<open>ADC_CHANNELS\<close> or beyond, and when the queue is full. When the
  cursor is a channel index and the queue has room it requests the cursor's channel;
  with a channel open it then moves the cursor to the next open channel and returns
  true, with no channel open it does not return.
\<close>

lemma service_idle:
  "ADC_CHANNELS \<le> unat (nextChannel s) \<Longrightarrow> hsk_adc_service s = Some (Inr (False, s))"
  by (simp add: hsk_adc_service_def)

lemma service_full:
  assumes "unat (nextChannel s) < ADC_CHANNELS" and "queue_pending (ADC_QSR0 s) = ADC_QUEUE"
  shows "hsk_adc_service s = Some (Inr (False, s))"
  using assms request_result [of "nextChannel s" s] by (simp add: hsk_adc_service_def)

lemma service_spin:
  assumes "unat (nextChannel s) < ADC_CHANNELS" and "queue_pending (ADC_QSR0 s) \<noteq> ADC_QUEUE"
    and "open_channels (targets s) = []"
  shows "hsk_adc_service s = None"
  using assms request_result [of "nextChannel s" s] service_scan_none [OF assms(3)]
  by (simp add: hsk_adc_service_def)

lemma service_advance:
  assumes "unat (nextChannel s) < ADC_CHANNELS" and "queue_pending (ADC_QSR0 s) \<noteq> ADC_QUEUE"
    and "open_channels (targets s) \<noteq> []"
  shows "\<exists>m. next_open (targets s) (unat (nextChannel s)) = Some m \<and>
           m \<in> set (open_channels (targets s)) \<and>
           hsk_adc_service s = Some (Inr (True,
             s\<lparr>ADC_QINR0 := ADC_QINR0 s @ [nextChannel s], nextChannel := of_nat m\<rparr>))"
proof -
  define c where "c = unat (nextChannel s)"
  from assms(1) have c: "c < 8" by (simp add: c_def ADC_CHANNELS_def)
  from next_open_any [OF c assms(3)] obtain m where m: "next_open (targets s) c = Some m" by blast
  then obtain d where d: "1 \<le> d" "d \<le> 8" "m = (c + d) mod 8" "targets s ! ((c + d) mod 8) \<noteq> 0"
    "\<forall>j. 1 \<le> j \<and> j < d \<longrightarrow> targets s ! ((c + j) mod 8) = 0"
    unfolding next_open_Some by blast
  have mi: "m \<in> set (open_channels (targets s))" using d(3,4) by (simp add: open_channels_iff)
  have "service_scan (targets s) (nextChannel s) = Some (Inr (nextChannel s + of_nat (d - 1 + 1)))"
  proof (rule service_scan_finds)
    show "unat (nextChannel s) + (d - 1) + 1 < 256" using c d by (simp add: c_def)
    show "\<forall>j. 1 \<le> j \<and> j \<le> d - 1 \<longrightarrow> targets s ! ((unat (nextChannel s) + j) mod 8) = 0"
    proof (intro allI impI)
      fix j assume "1 \<le> j \<and> j \<le> d - 1"
      with d(1) have "1 \<le> j \<and> j < d" by arith
      with d(5) show "targets s ! ((unat (nextChannel s) + j) mod 8) = 0"
        by (simp add: c_def)
    qed
    show "targets s ! ((unat (nextChannel s) + (d - 1) + 1) mod 8) \<noteq> 0"
      using d by (simp add: c_def)
  qed
  with d have scan: "service_scan (targets s) (nextChannel s) = Some (Inr (nextChannel s + of_nat d))"
    by simp
  have "unat (nextChannel s + of_nat d) = c + d"
    using c d by (simp add: unat_word_ariths unat_of_nat c_def)
  then have "unat ((nextChannel s + of_nat d) mod 8) = (c + d) mod 8"
    by (simp add: unat_mod)
  then have "(nextChannel s + of_nat d) mod 8 = of_nat m"
    using d by (simp add: word_unat_eq_iff unat_of_nat)
  with assms(1,2) scan have "hsk_adc_service s = Some (Inr (True,
             s\<lparr>ADC_QINR0 := ADC_QINR0 s @ [nextChannel s], nextChannel := of_nat m\<rparr>))"
    using request_result [of "nextChannel s" s]
    by (simp add: hsk_adc_service_def)
  with m mi show ?thesis by (auto simp: c_def)
qed


lemma filter_rotate1_keep: "xs \<noteq> [] \<Longrightarrow> P (hd xs) \<Longrightarrow> filter P (rotate1 xs) = rotate1 (filter P xs)"
  by (cases xs) simp_all

lemma filter_rotate1_skip: "xs \<noteq> [] \<Longrightarrow> \<not> P (hd xs) \<Longrightarrow> filter P (rotate1 xs) = filter P xs"
  by (cases xs) simp_all

lemma filter_rotate_first:
  assumes "xs \<noteq> []" and "P (hd xs)" and "1 \<le> d" and "d \<le> length xs"
    and "\<forall>j. 1 \<le> j \<and> j < d \<longrightarrow> \<not> P (xs ! j)"
  shows "filter P (rotate d xs) = rotate1 (filter P xs)"
  using assms(3-5)
proof (induction d rule: nat_induct_at_least)
  case base
  from assms(1,2) show ?case by (simp add: filter_rotate1_keep)
next
  case (Suc d)
  then have dl: "d < length xs" by simp
  from Suc.prems(2) [rule_format, of d] Suc.hyps have np: "\<not> P (xs ! d)" by simp
  have ne: "rotate d xs \<noteq> []" using assms(1) by simp
  have "hd (rotate d xs) = xs ! d"
    using assms(1) dl by (simp add: hd_rotate_conv_nth)
  with np ne have "filter P (rotate1 (rotate d xs)) = filter P (rotate d xs)"
    by (simp add: filter_rotate1_skip)
  moreover have "filter P (rotate d xs) = rotate1 (filter P xs)"
    using Suc.prems dl by (intro Suc.IH) auto
  ultimately show ?case by simp
qed

lemma cyc_nth: "c < 8 \<Longrightarrow> j < 8 \<Longrightarrow> rotate c [0..<8] ! j = (c + j) mod 8"
  by (simp add: nth_rotate)

lemma ring_hd:
  assumes "c < 8" and "ts ! c \<noteq> 0"
  shows "ring ts c \<noteq> [] \<and> hd (ring ts c) = c"
proof -
  have "hd (rotate c [0..<8]) = c"
    using assms(1) by (simp add: hd_rotate_conv_nth)
  moreover have "rotate c [0..<8] \<noteq> []" by simp
  ultimately obtain ys where "rotate c [0..<8] = c # ys"
    by (cases "rotate c [0..<8]") auto
  with assms(2) show ?thesis by (simp add: ring_def ADC_CHANNELS_def)
qed

lemma ring_next:
  assumes "c < 8" and "ts ! c \<noteq> 0" and "next_open ts c = Some m"
  shows "ring ts m = rotate1 (ring ts c)"
proof -
  let ?P = "\<lambda>i. ts ! i \<noteq> 0"
  let ?L = "rotate c [0..<8]"
  from assms(3) obtain d where d: "1 \<le> d" "d \<le> 8" "m = (c + d) mod 8"
    "\<forall>j. 1 \<le> j \<and> j < d \<longrightarrow> ts ! ((c + j) mod 8) = 0"
    unfolding next_open_Some by blast
  have "rotate m [0..<8] = rotate (c + d) [0..<8]"
    using d(3) rotate_conv_mod [of "c + d" "[0..<8]"] by simp
  also have "\<dots> = rotate d ?L" by (simp add: rotate_rotate add.commute)
  finally have r: "rotate m [0..<8] = rotate d ?L" .
  have "filter ?P (rotate d ?L) = rotate1 (filter ?P ?L)"
  proof (rule filter_rotate_first)
    show "?L \<noteq> []" by simp
    show "?P (hd ?L)" using assms(1,2) by (simp add: hd_rotate_conv_nth)
    show "1 \<le> d" by fact
    show "d \<le> length ?L" using d(2) by simp
    show "\<forall>j. 1 \<le> j \<and> j < d \<longrightarrow> \<not> ?P (?L ! j)"
    proof (intro allI impI)
      fix j assume j: "1 \<le> j \<and> j < d"
      with d(2) have "j < 8" by simp
      with assms(1) have "?L ! j = (c + j) mod 8" by (rule cyc_nth)
      with d(4) j show "\<not> ?P (?L ! j)" by simp
    qed
  qed
  with r show ?thesis by (simp add: ring_def ADC_CHANNELS_def)
qed

lemma ring_set: "set (ring ts c) = set (open_channels ts)"
  by (simp add: ring_def open_channels_def)

lemma ring_distinct: "distinct (ring ts c)"
  by (simp add: ring_def)

lemma ring_length: "length (ring ts c) = length (open_channels ts)"
proof -
  have "distinct (open_channels ts)" by (simp add: open_channels_def)
  then have "length (open_channels ts) = card (set (open_channels ts))"
    by (simp add: distinct_card)
  moreover have "length (ring ts c) = card (set (ring ts c))"
    using ring_distinct by (simp add: distinct_card)
  ultimately show ?thesis by (simp add: ring_set)
qed

lemma upcoming_length: "length (upcoming n R) = n"
  by (induction n arbitrary: R) simp_all

lemma upcoming_set: "R \<noteq> [] \<Longrightarrow> set (upcoming n R) \<subseteq> set R"
proof (induction n arbitrary: R)
  case 0
  show ?case by simp
next
  case (Suc n)
  have "set (upcoming n (rotate1 R)) \<subseteq> set (rotate1 R)"
    using Suc.prems by (intro Suc.IH) simp
  with Suc.prems show ?case by (cases R) auto
qed

lemma count_upcoming:
  assumes "distinct R" and "b < length R"
  shows "count_list (upcoming n R) (R ! b) = (n + length R - 1 - b) div length R"
  using assms
proof (induction n arbitrary: R b)
  case 0
  then show ?case by simp
next
  case (Suc n)
  then obtain x xs where R: "R = x # xs" by (cases R) auto
  let ?K = "length R"
  have d': "distinct (rotate1 R)" using Suc.prems by simp
  show ?case
  proof (cases b)
    case 0
    have "rotate1 R ! (?K - 1) = x" by (simp add: R nth_append)
    moreover have "count_list (upcoming n (rotate1 R)) (rotate1 R ! (?K - 1))
        = (n + length (rotate1 R) - 1 - (?K - 1)) div length (rotate1 R)"
      using d' by (intro Suc.IH) (simp_all add: R)
    ultimately have "count_list (upcoming n (rotate1 R)) x = n div ?K"
      by (simp add: R)
    moreover have "(n + ?K) div ?K = n div ?K + 1"
      using div_add_self2 [of ?K n] by (simp add: R)
    moreover have "Suc n + ?K - 1 - b = n + ?K" using 0 by simp
    ultimately show ?thesis using 0 by (simp only: upcoming.simps count_list.simps R list.sel nth_Cons_0) simp
  next
    case (Suc b')
    with Suc.prems have b': "b' < length xs" by (simp add: R)
    then have e: "rotate1 R ! b' = R ! b" by (simp add: R Suc nth_append)
    have ne: "R ! b \<noteq> x"
      using Suc.prems(1) b' by (auto simp: R Suc)
    have "count_list (upcoming n (rotate1 R)) (rotate1 R ! b')
        = (n + length (rotate1 R) - 1 - b') div length (rotate1 R)"
      using d' b' by (intro Suc.IH) (simp_all add: R)
    with e have "count_list (upcoming n (rotate1 R)) (R ! b) = (n + ?K - 1 - b') div ?K"
      by simp
    moreover have "n + ?K - 1 - b' = Suc n + ?K - 1 - b" using Suc by simp
    ultimately show ?thesis using ne by (simp add: R)
  qed
qed

lemma count_upcoming_bounds:
  assumes "distinct R" and "a \<in> set R"
  shows "n div length R \<le> count_list (upcoming n R) a
       \<and> count_list (upcoming n R) a \<le> (n + length R - 1) div length R"
proof -
  from assms(2) obtain b where b: "b < length R" "R ! b = a"
    by (auto simp: in_set_conv_nth)
  have c: "count_list (upcoming n R) a = (n + length R - 1 - b) div length R"
    using count_upcoming [OF assms(1) b(1), of n] b(2) by simp
  have "n \<le> n + length R - 1 - b" using b(1) by simp
  then have "n div length R \<le> (n + length R - 1 - b) div length R"
    by (rule div_le_mono)
  moreover have "(n + length R - 1 - b) div length R \<le> (n + length R - 1) div length R"
    by (rule div_le_mono) simp
  ultimately show ?thesis by (simp add: c)
qed

text \<open>
  Consecutive calls. While the cursor is \<open>ADC_CHANNELS\<close> every call returns false. From
  a cursor on an open channel the calls that find room in the queue request the open
  channels in ring order, one after the other. From any channel index, with a channel
  open and room in the queue, every call returns true.
\<close>

lemma service_run_idle:
  assumes "ADC_CHANNELS \<le> unat (nextChannel s)"
  shows "service_run qs s =
     Some (Inr (replicate (length qs) False, s\<lparr>ADC_QSR0 := last (ADC_QSR0 s # qs)\<rparr>))"
  using assms
proof (induction qs arbitrary: s)
  case Nil
  show ?case by simp
next
  case (Cons q qs)
  let ?s0 = "s\<lparr>ADC_QSR0 := q\<rparr>"
  have n0: "ADC_CHANNELS \<le> unat (nextChannel ?s0)" using Cons.prems by simp
  have sv: "hsk_adc_service ?s0 = Some (Inr (False, ?s0))" using n0 by (rule service_idle)
  have "service_run qs ?s0 =
     Some (Inr (replicate (length qs) False, ?s0\<lparr>ADC_QSR0 := last (ADC_QSR0 ?s0 # qs)\<rparr>))"
    using n0 by (rule Cons.IH)
  with sv show ?case by simp
qed

lemma service_run_cycle:
  assumes "unat (nextChannel s) \<in> set (open_channels (targets s))"
  shows "\<exists>s'. service_run qs s =
             Some (Inr (map (\<lambda>q. queue_pending q \<noteq> ADC_QUEUE) qs, s')) \<and>
           targets s' = targets s \<and>
           map unat (ADC_QINR0 s') = map unat (ADC_QINR0 s) @
             upcoming (length (filter (\<lambda>q. queue_pending q \<noteq> ADC_QUEUE) qs))
               (ring (targets s) (unat (nextChannel s)))"
  using assms
proof (induction qs arbitrary: s)
  case Nil
  then show ?case by simp
next
  case (Cons q qs)
  let ?s0 = "s\<lparr>ADC_QSR0 := q\<rparr>"
  define c where "c = unat (nextChannel s)"
  from Cons.prems have c: "c < 8" "targets s ! c \<noteq> 0"
    by (simp_all add: c_def open_channels_iff)
  have lt: "unat (nextChannel ?s0) < ADC_CHANNELS" using c by (simp add: c_def ADC_CHANNELS_def)
  have i0: "unat (nextChannel ?s0) \<in> set (open_channels (targets ?s0))" using Cons.prems by simp
  then have o0: "open_channels (targets ?s0) \<noteq> []" by auto
  show ?case
  proof (cases "queue_pending q = ADC_QUEUE")
    case True
    then have sv: "hsk_adc_service ?s0 = Some (Inr (False, ?s0))"
      using service_full [OF lt] by simp
    from Cons.IH [OF i0] obtain s' where
      "service_run qs ?s0 = Some (Inr (map (\<lambda>q. queue_pending q \<noteq> ADC_QUEUE) qs, s'))"
      "targets s' = targets ?s0"
      "map unat (ADC_QINR0 s') = map unat (ADC_QINR0 ?s0) @
             upcoming (length (filter (\<lambda>q. queue_pending q \<noteq> ADC_QUEUE) qs))
               (ring (targets ?s0) (unat (nextChannel ?s0)))"
      by blast
    with sv True show ?thesis by simp
  next
    case False
    then have nf: "queue_pending (ADC_QSR0 ?s0) \<noteq> ADC_QUEUE" by simp
    from service_advance [OF lt nf o0] obtain m where
      m: "next_open (targets s) c = Some m" and
      mi: "m \<in> set (open_channels (targets s))" and
      sv: "hsk_adc_service ?s0 = Some (Inr (True,
             ?s0\<lparr>ADC_QINR0 := ADC_QINR0 s @ [nextChannel s], nextChannel := of_nat m\<rparr>))"
      by (auto simp: c_def)
    let ?s1 = "?s0\<lparr>ADC_QINR0 := ADC_QINR0 s @ [nextChannel s], nextChannel := of_nat m\<rparr>"
    from mi have "m < 8" by (simp add: open_channels_iff)
    then have um: "unat (nextChannel ?s1) = m" by (simp add: unat_of_nat)
    have i1: "unat (nextChannel ?s1) \<in> set (open_channels (targets ?s1))"
      unfolding um using mi by simp
    from Cons.IH [OF i1] obtain s' where
      r: "service_run qs ?s1 = Some (Inr (map (\<lambda>q. queue_pending q \<noteq> ADC_QUEUE) qs, s'))" and
      t': "targets s' = targets ?s1" and
      q': "map unat (ADC_QINR0 s') = map unat (ADC_QINR0 ?s1) @
             upcoming (length (filter (\<lambda>q. queue_pending q \<noteq> ADC_QUEUE) qs))
               (ring (targets ?s1) (unat (nextChannel ?s1)))"
      by blast
    have rn: "ring (targets s) m = rotate1 (ring (targets s) (unat (nextChannel s)))"
      using ring_next [OF c m] by (simp add: c_def)
    have hd: "hd (ring (targets s) (unat (nextChannel s))) = unat (nextChannel s)"
      using ring_hd [OF c] by (simp add: c_def)
    from q' have "map unat (ADC_QINR0 s') = map unat (ADC_QINR0 s) @
        upcoming (Suc (length (filter (\<lambda>q. queue_pending q \<noteq> ADC_QUEUE) qs)))
          (ring (targets s) (unat (nextChannel s)))"
      unfolding um by (simp add: rn hd)
    with r sv t' False show ?thesis by simp
  qed
qed

lemma service_run_busy:
  assumes "unat (nextChannel s) < ADC_CHANNELS" and "open_channels (targets s) \<noteq> []"
    and "list_all (\<lambda>q. queue_pending q \<noteq> ADC_QUEUE) qs"
  shows "\<exists>s'. service_run qs s = Some (Inr (replicate (length qs) True, s')) \<and>
           targets s' = targets s"
proof (cases qs)
  case Nil
  then show ?thesis by simp
next
  case (Cons q qs')
  let ?s0 = "s\<lparr>ADC_QSR0 := q\<rparr>"
  have lt: "unat (nextChannel ?s0) < ADC_CHANNELS" using assms(1) by simp
  have nf: "queue_pending (ADC_QSR0 ?s0) \<noteq> ADC_QUEUE" using assms(3) Cons by simp
  have o0: "open_channels (targets ?s0) \<noteq> []" using assms(2) by simp
  from service_advance [OF lt nf o0] obtain m where
    mi: "m \<in> set (open_channels (targets s))" and
    sv: "hsk_adc_service ?s0 = Some (Inr (True,
           ?s0\<lparr>ADC_QINR0 := ADC_QINR0 s @ [nextChannel s], nextChannel := of_nat m\<rparr>))"
    by auto
  let ?s1 = "?s0\<lparr>ADC_QINR0 := ADC_QINR0 s @ [nextChannel s], nextChannel := of_nat m\<rparr>"
  from mi have "m < 8" by (simp add: open_channels_iff)
  then have um: "unat (nextChannel ?s1) = m" by (simp add: unat_of_nat)
  have i1: "unat (nextChannel ?s1) \<in> set (open_channels (targets ?s1))"
    unfolding um using mi by simp
  have all: "map (\<lambda>q. queue_pending q \<noteq> ADC_QUEUE) qs' = replicate (length qs') True"
    using assms(3) Cons by (simp add: list_all_iff map_replicate_const [symmetric] cong: map_cong)
  from service_run_cycle [OF i1, of qs'] all obtain s' where
    "service_run qs' ?s1 = Some (Inr (replicate (length qs') True, s'))" "targets s' = targets ?s1"
    by auto
  with sv Cons show ?thesis by simp
qed

text \<open>
  From a cursor on an open channel every open channel gets its share of \<open>N\<close>
  successful calls: \<open>N div K\<close> or \<open>(N + K - 1) div K\<close> requests, the quotient \<open>N / K\<close>
  rounded down or up.
\<close>

lemma fair_share:
  assumes "unat (nextChannel s) \<in> set (open_channels (targets s))"
    and "service_run qs s = Some (Inr (bs, s'))" and "list_all (\<lambda>b. b) bs"
    and "c \<in> set (open_channels (targets s))"
  shows "targets s' = targets s \<and>
     (let N = length qs; K = length (open_channels (targets s));
          n = count_list (map unat (drop (length (ADC_QINR0 s)) (ADC_QINR0 s'))) c
      in n = N div K \<or> n = (N + K - 1) div K)"
proof -
  let ?nf = "\<lambda>q. queue_pending q \<noteq> ADC_QUEUE"
  let ?R = "ring (targets s) (unat (nextChannel s))"
  let ?K = "length (open_channels (targets s))"
  let ?N = "length qs"
  from service_run_cycle [OF assms(1), of qs] assms(2) have
    bs: "bs = map ?nf qs" and ts: "targets s' = targets s" and
    q: "map unat (ADC_QINR0 s') = map unat (ADC_QINR0 s) @ upcoming (length (filter ?nf qs)) ?R"
    by auto
  from assms(3) bs have "\<forall>q\<in>set qs. ?nf q" by (simp add: list_all_iff)
  then have "filter ?nf qs = qs" by simp
  with q have q': "map unat (ADC_QINR0 s') = map unat (ADC_QINR0 s) @ upcoming ?N ?R" by simp
  have "map unat (drop (length (ADC_QINR0 s)) (ADC_QINR0 s'))
      = drop (length (map unat (ADC_QINR0 s))) (map unat (ADC_QINR0 s'))"
    by (simp add: drop_map)
  also have "\<dots> = upcoming ?N ?R" unfolding q' by simp
  finally have d: "map unat (drop (length (ADC_QINR0 s)) (ADC_QINR0 s')) = upcoming ?N ?R" .
  have cR: "c \<in> set ?R" using assms(4) by (simp add: ring_set)
  have K: "length ?R = ?K" by (rule ring_length)
  from count_upcoming_bounds [OF ring_distinct cR, of ?N]
  have lo: "?N div ?K \<le> count_list (upcoming ?N ?R) c"
    and hi: "count_list (upcoming ?N ?R) c \<le> (?N + ?K - 1) div ?K"
    by (simp_all add: K)
  have Kpos: "0 < ?K" using assms(4) by (cases "open_channels (targets s)") auto
  have "(?N + ?K - 1) div ?K \<le> (?N + ?K) div ?K" by (rule div_le_mono) simp
  also have "\<dots> = ?N div ?K + 1" using Kpos div_add_self2 [of ?K ?N] by simp
  finally have "(?N + ?K - 1) div ?K \<le> ?N div ?K + 1" .
  with lo hi have "count_list (upcoming ?N ?R) c = ?N div ?K
      \<or> count_list (upcoming ?N ?R) c = (?N + ?K - 1) div ?K"
    by arith
  with ts d show ?thesis by (simp add: Let_def)
qed

lemma two_channels_open: "open_channels (targets two_channels) = [2, 5]"
  by (simp add: two_channels_def open_channels_def ADC_CHANNELS_def upt_rec)

lemma pending_examples:
  "queue_pending 0x20 = 0" "queue_pending 3 = ADC_QUEUE" "queue_pending 0 = 1"
  by (simp_all add: queue_pending_def ADC_QUEUE_def)

lemma two_channels_share:
  "\<exists>s'. service_run [0x20, 0, 0x20] two_channels = Some (Inr ([True, True, True], s')) \<and>
      targets s' = targets two_channels \<and>
      (count_list (map unat (drop (length (ADC_QINR0 two_channels)) (ADC_QINR0 s'))) 5 = 1 \<or>
       count_list (map unat (drop (length (ADC_QINR0 two_channels)) (ADC_QINR0 s'))) 5 = 2)"
proof -
  have i: "unat (nextChannel two_channels) \<in> set (open_channels (targets two_channels))"
    unfolding two_channels_open by (simp add: two_channels_def)
  have "map (\<lambda>q. queue_pending q \<noteq> ADC_QUEUE) [0x20, 0, 0x20] = [True, True, True]"
    by (simp add: pending_examples ADC_QUEUE_def)
  with service_run_cycle [OF i, of "[0x20, 0, 0x20]"] obtain s' where
    r: "service_run [0x20, 0, 0x20] two_channels = Some (Inr ([True, True, True], s'))"
    by auto
  have all: "list_all (\<lambda>b. b) [True, True, True]" by simp
  have m5: "5 \<in> set (open_channels (targets two_channels))" by (simp add: two_channels_open)
  have N: "length [0x20, 0, 0x20 :: ubyte] = 3" by simp
  have K: "length (open_channels (targets two_channels)) = 2" by (simp add: two_channels_open)
  from fair_share [OF i r all m5]
  have "targets s' = targets two_channels \<and>
      (count_list (map unat (drop (length (ADC_QINR0 two_channels)) (ADC_QINR0 s'))) 5 = 1 \<or>
       count_list (map unat (drop (length (ADC_QINR0 two_channels)) (ADC_QINR0 s'))) 5 = 2)"
    unfolding Let_def N K by simp
  with r show ?thesis by blast
qed

subsection \<open>A cursor left on a closed channel\<close>

text \<open>
  \<open>hsk_adc_init\<close> clears \<open>targets\<close> and does not touch \<open>nextChannel\<close>; the open
  functions claim the cursor for whatever target they are given, a null pointer
  included. Both leave the cursor on a channel that is not open.
\<close>

lemma init_registry:
  "targets (hsk_adc_init r t s) = replicate ADC_CHANNELS 0 \<and>
   nextChannel (hsk_adc_init r t s) = nextChannel s \<and>
   ADC_QSR0 (hsk_adc_init r t s) = ADC_QSR0 s \<and>
   ADC_QINR0 (hsk_adc_init r t s) = ADC_QINR0 s"
  by (simp add: hsk_adc_init_def set_handler_def Let_def split: prod.splits)

lemma conv_timing_4: "conv_timing 10 4 = (0, 34)"
  by (simp add: conv_timing_def Let_def)

lemma init_mode10:
  "drop_bit BIT_DW (ADC_GLOBCTR (hsk_adc_init ADC_RESOLUTION_10 4 s)) AND 1 = ADC_RESOLUTION_10"
proof -
  have "\<not> bit (ADC_GLOBCTR (hsk_adc_init ADC_RESOLUTION_10 4 s)) 6"
    by (simp add: hsk_adc_init_def set_handler_def Let_def conv_timing_4 bit_simps)
  then show ?thesis
    by (simp add: bit_iff_odd_drop_bit and_one_eq even_iff_mod_2_eq_zero)
qed

lemma open10_after_init:
  assumes "unat c < ADC_CHANNELS"
  shows "hsk_adc_open10 c p (hsk_adc_init ADC_RESOLUTION_10 4 s) =
     Inr (claim_cursor c ((hsk_adc_init ADC_RESOLUTION_10 4 s)
        \<lparr>targets := (replicate ADC_CHANNELS 0)[unat c := p],
          shared_writes := shared_writes (hsk_adc_init ADC_RESOLUTION_10 4 s) @ [TargetWrite (unat c) p False]\<rparr>))"
  using assms init_mode10 [of s]
  by (simp add: hsk_adc_open10_def set_target_def Let_def init_registry)

lemma slot3: "(replicate ADC_CHANNELS (0 :: ptr))[3 := p] = [0, 0, 0, p, 0, 0, 0, 0]"
  by (simp add: ADC_CHANNELS_def eval_nat_numeral)

lemma slot5: "(replicate ADC_CHANNELS (0 :: ptr))[5 := p] = [0, 0, 0, 0, 0, p, 0, 0]"
  by (simp add: ADC_CHANNELS_def eval_nat_numeral)

lemma eight_channels: "ADC_CHANNELS \<le> 8"
  by (simp add: ADC_CHANNELS_def)

lemma open_channels_none: "open_channels (replicate ADC_CHANNELS 0) = []"
  by (simp add: open_channels_empty ADC_CHANNELS_def)

lemma empty_queue_has_room: "queue_pending 0x20 \<noteq> ADC_QUEUE"
  by (simp add: queue_pending_def ADC_QUEUE_def)

lemma closed_channel_requested:
  assumes "nextChannel s = 3" and "targets s = (replicate ADC_CHANNELS 0)[5 := 88]"
  shows "open_channels (targets s) = [5] \<and>
     (\<exists>s'. service_run [0x20] s = Some (Inr ([True], s')) \<and>
        map unat (drop (length (ADC_QINR0 s)) (ADC_QINR0 s')) = [3])"
proof -
  let ?s0 = "s\<lparr>ADC_QSR0 := 0x20\<rparr>"
  have o: "open_channels (targets s) = [5]"
    unfolding assms slot5 by (simp add: open_channels_def ADC_CHANNELS_def upt_rec)
  have lt: "unat (nextChannel ?s0) < ADC_CHANNELS" by (simp add: assms ADC_CHANNELS_def)
  have nf: "queue_pending (ADC_QSR0 ?s0) \<noteq> ADC_QUEUE" by (simp add: empty_queue_has_room)
  have o0: "open_channels (targets ?s0) \<noteq> []" by (simp add: o)
  from service_advance [OF lt nf o0] obtain m where
    "hsk_adc_service ?s0 = Some (Inr (True,
        ?s0\<lparr>ADC_QINR0 := ADC_QINR0 ?s0 @ [nextChannel ?s0], nextChannel := of_nat m\<rparr>))"
    by blast
  then have "\<exists>s'. service_run [0x20] s = Some (Inr ([True], s')) \<and>
        map unat (drop (length (ADC_QINR0 s)) (ADC_QINR0 s')) = [3]"
    by (simp add: assms)
  with o show ?thesis by simp
qed

text \<open>
  C2 fails on the code. \<open>hsk_adc_service\<close> decides that no channel is open by the
  cursor (\<open>nextChannel >= ADC_CHANNELS\<close>), not by \<open>targets\<close>. After \<open>hsk_adc_init\<close>,
  \<open>hsk_adc_open10(3, p)\<close> and a second \<open>hsk_adc_init\<close> no channel is open and the cursor
  is still 3, and so it is after \<open>hsk_adc_init\<close> and \<open>hsk_adc_open10(3, 0)\<close>. With an
  empty queue \<open>hsk_adc_service\<close> then requests channel 3 and its \<open>while\<close> loop finds no
  target to stop at: the call does not return, where C2 has it return false at once.
\<close>

theorem service_spins_on_stale_cursor:
  "(\<exists>s1. hsk_adc_open10 3 77 (hsk_adc_init ADC_RESOLUTION_10 4 reset_state) = Inr s1 \<and>
       open_channels (targets s1) = [3] \<and>
       open_channels (targets (hsk_adc_init ADC_RESOLUTION_10 4 s1)) = [] \<and>
       nextChannel (hsk_adc_init ADC_RESOLUTION_10 4 s1) = 3 \<and>
       queue_pending (ADC_QSR0 (hsk_adc_init ADC_RESOLUTION_10 4 s1)) = 0 \<and>
       hsk_adc_service (hsk_adc_init ADC_RESOLUTION_10 4 s1) = None)
   \<and> (\<exists>s. hsk_adc_open10 3 0 (hsk_adc_init ADC_RESOLUTION_10 4 reset_state) = Inr s \<and>
       open_channels (targets s) = [] \<and> nextChannel s = 3 \<and>
       queue_pending (ADC_QSR0 s) = 0 \<and> hsk_adc_service s = None)"
proof -
  let ?s0 = "hsk_adc_init ADC_RESOLUTION_10 4 reset_state"
  have c3: "unat (3 :: hsk_adc_channel) < ADC_CHANNELS" by (simp add: ADC_CHANNELS_def)
  have n0: "nextChannel ?s0 = 8" and q0: "ADC_QSR0 ?s0 = 0x20"
    by (simp_all add: init_registry reset_state_def ADC_CHANNELS_def)
  have spin: "hsk_adc_service s = None"
    if "nextChannel s = 3" and "ADC_QSR0 s = 0x20" and "open_channels (targets s) = []" for s
    using that empty_queue_has_room by (intro service_spin) (simp_all add: ADC_CHANNELS_def)
  have p0: "queue_pending 0x20 = 0" by (simp add: queue_pending_def)
  obtain s1 where s1: "hsk_adc_open10 3 77 ?s0 = Inr s1"
    and t1: "targets s1 = (replicate ADC_CHANNELS 0)[3 := 77]"
    and n1: "nextChannel s1 = 3" and q1: "ADC_QSR0 s1 = 0x20"
    using n0 q0 by (simp add: open10_after_init [OF c3] claim_cursor_def ADC_CHANNELS_def)
  let ?s2 = "hsk_adc_init ADC_RESOLUTION_10 4 s1"
  have o1: "open_channels (targets s1) = [3]"
    unfolding t1 slot3 by (simp add: open_channels_def ADC_CHANNELS_def upt_rec)
  have o2: "open_channels (targets ?s2) = []" by (simp add: init_registry open_channels_none)
  have n2: "nextChannel ?s2 = 3" and q2: "ADC_QSR0 ?s2 = 0x20"
    by (simp_all add: init_registry n1 q1)
  have a: "\<exists>s1. hsk_adc_open10 3 77 ?s0 = Inr s1 \<and>
       open_channels (targets s1) = [3] \<and>
       open_channels (targets (hsk_adc_init ADC_RESOLUTION_10 4 s1)) = [] \<and>
       nextChannel (hsk_adc_init ADC_RESOLUTION_10 4 s1) = 3 \<and>
       queue_pending (ADC_QSR0 (hsk_adc_init ADC_RESOLUTION_10 4 s1)) = 0 \<and>
       hsk_adc_service (hsk_adc_init ADC_RESOLUTION_10 4 s1) = None"
    using s1 o1 o2 n2 q2 p0 spin [OF n2 q2 o2] by simp
  obtain s where s: "hsk_adc_open10 3 0 ?s0 = Inr s"
    and t: "targets s = (replicate ADC_CHANNELS 0)[3 := 0]"
    and n: "nextChannel s = 3" and q: "ADC_QSR0 s = 0x20"
    using n0 q0 by (simp add: open10_after_init [OF c3] claim_cursor_def ADC_CHANNELS_def)
  have o: "open_channels (targets s) = []"
    unfolding t slot3 by (simp add: open_channels_def ADC_CHANNELS_def upt_rec)
  have b: "\<exists>s. hsk_adc_open10 3 0 ?s0 = Inr s \<and>
       open_channels (targets s) = [] \<and> nextChannel s = 3 \<and>
       queue_pending (ADC_QSR0 s) = 0 \<and> hsk_adc_service s = None"
    using s o n q p0 spin [OF n q o] by simp
  from a b show ?thesis by (rule conjI)
qed

text \<open>
  C7 fails on the code, in the same states. With the cursor left on the closed
  channel 3 and channel 5 the only open channel, the one call of \<open>hsk_adc_service\<close>
  returns true and has requested channel 3: of \<open>N = 1\<close> successful calls with \<open>K = 1\<close>
  open channel, channel 5 gets no request, where \<open>N div K\<close> and \<open>(N + K - 1) div K\<close>
  are both 1.
\<close>

theorem stale_cursor_breaks_fairness:
  "(\<exists>s1 s s'. hsk_adc_open10 3 77 (hsk_adc_init ADC_RESOLUTION_10 4 reset_state) = Inr s1 \<and>
      hsk_adc_open10 5 88 (hsk_adc_init ADC_RESOLUTION_10 4 s1) = Inr s \<and>
      open_channels (targets s) = [5] \<and>
      service_run [0x20] s = Some (Inr ([True], s')) \<and>
      map unat (drop (length (ADC_QINR0 s)) (ADC_QINR0 s')) = [3] \<and>
      (let N = length [0x20 :: ubyte]; K = length (open_channels (targets s));
           n = count_list (map unat (drop (length (ADC_QINR0 s)) (ADC_QINR0 s'))) 5
       in n = 0 \<and> N div K = 1 \<and> (N + K - 1) div K = 1))
   \<and> (\<exists>s s'. run_calls [Open10 3 0, Open10 5 88] (hsk_adc_init ADC_RESOLUTION_10 4 reset_state) = Inr s \<and>
      open_channels (targets s) = [5] \<and>
      service_run [0x20] s = Some (Inr ([True], s')) \<and>
      map unat (drop (length (ADC_QINR0 s)) (ADC_QINR0 s')) = [3] \<and>
      (let N = length [0x20 :: ubyte]; K = length (open_channels (targets s));
           n = count_list (map unat (drop (length (ADC_QINR0 s)) (ADC_QINR0 s'))) 5
       in n = 0 \<and> N div K = 1 \<and> (N + K - 1) div K = 1))"
proof -
  let ?s0 = "hsk_adc_init ADC_RESOLUTION_10 4 reset_state"
  have c3: "unat (3 :: hsk_adc_channel) < ADC_CHANNELS"
    and c5: "unat (5 :: hsk_adc_channel) < ADC_CHANNELS" by (simp_all add: ADC_CHANNELS_def)
  have n0: "nextChannel ?s0 = 8"
    by (simp add: init_registry reset_state_def ADC_CHANNELS_def)
  have m10: "drop_bit BIT_DW (ADC_GLOBCTR ?s0) AND 1 = ADC_RESOLUTION_10" by (rule init_mode10)
  have z: "(replicate ADC_CHANNELS (0 :: ptr))[3 := 0] = replicate ADC_CHANNELS 0"
    by (simp add: slot3) (simp add: ADC_CHANNELS_def eval_nat_numeral)
  obtain sa where sa: "hsk_adc_open10 3 0 ?s0 = Inr sa"
    and ta: "targets sa = replicate ADC_CHANNELS 0"
    and na: "nextChannel sa = 3" and ma: "ADC_GLOBCTR sa = ADC_GLOBCTR ?s0"
    using n0 z by (simp add: open10_after_init [OF c3] claim_cursor_def eight_channels)
  obtain s where s: "hsk_adc_open10 5 88 sa = Inr s"
    and t: "targets s = (replicate ADC_CHANNELS 0)[5 := 88]" and n: "nextChannel s = 3"
    using m10 ta na ma
    by (simp add: hsk_adc_open10_def set_target_def claim_cursor_def ADC_CHANNELS_def)
  from sa s have r: "run_calls [Open10 3 0, Open10 5 88] ?s0 = Inr s" by simp
  from closed_channel_requested [OF n t] obtain s' where
    o: "open_channels (targets s) = [5]" and
    sv: "service_run [0x20] s = Some (Inr ([True], s'))" and
    rq: "map unat (drop (length (ADC_QINR0 s)) (ADC_QINR0 s')) = [3]"
    by auto
  have a: "\<exists>s s'. run_calls [Open10 3 0, Open10 5 88] ?s0 = Inr s \<and>
      open_channels (targets s) = [5] \<and>
      service_run [0x20] s = Some (Inr ([True], s')) \<and>
      map unat (drop (length (ADC_QINR0 s)) (ADC_QINR0 s')) = [3] \<and>
      (let N = length [0x20 :: ubyte]; K = length (open_channels (targets s));
           n = count_list (map unat (drop (length (ADC_QINR0 s)) (ADC_QINR0 s'))) 5
       in n = 0 \<and> N div K = 1 \<and> (N + K - 1) div K = 1)"
    using r o sv rq by (intro exI [of _ s] exI [of _ s']) (simp add: Let_def)
  obtain s1 where s1: "hsk_adc_open10 3 77 ?s0 = Inr s1" and n1: "nextChannel s1 = 3"
    using n0 by (simp add: open10_after_init [OF c3] claim_cursor_def ADC_CHANNELS_def)
  let ?s2 = "hsk_adc_init ADC_RESOLUTION_10 4 s1"
  have n2: "nextChannel ?s2 = 3" by (simp add: init_registry n1)
  obtain sb where sb: "hsk_adc_open10 5 88 ?s2 = Inr sb"
    and tb: "targets sb = (replicate ADC_CHANNELS 0)[5 := 88]" and nb: "nextChannel sb = 3"
    using n2 by (simp add: open10_after_init [OF c5] claim_cursor_def ADC_CHANNELS_def)
  from closed_channel_requested [OF nb tb] obtain sb' where
    ob: "open_channels (targets sb) = [5]" and
    svb: "service_run [0x20] sb = Some (Inr ([True], sb'))" and
    rqb: "map unat (drop (length (ADC_QINR0 sb)) (ADC_QINR0 sb')) = [3]"
    by auto
  have b: "\<exists>s1 s s'. hsk_adc_open10 3 77 ?s0 = Inr s1 \<and>
      hsk_adc_open10 5 88 (hsk_adc_init ADC_RESOLUTION_10 4 s1) = Inr s \<and>
      open_channels (targets s) = [5] \<and>
      service_run [0x20] s = Some (Inr ([True], s')) \<and>
      map unat (drop (length (ADC_QINR0 s)) (ADC_QINR0 s')) = [3] \<and>
      (let N = length [0x20 :: ubyte]; K = length (open_channels (targets s));
           n = count_list (map unat (drop (length (ADC_QINR0 s)) (ADC_QINR0 s'))) 5
       in n = 0 \<and> N div K = 1 \<and> (N + K - 1) div K = 1)"
    using s1 sb ob svb rqb
    by (intro exI [of _ s1] exI [of _ sb] exI [of _ sb']) (simp add: Let_def)
  from b a show ?thesis by (rule conjI)
qed

section \<open>The scheduler invariant under open and close\<close>

text \<open>
  The invariant holds after \<open>hsk_adc_init\<close> at program start, and every call of an
  open function or of \<open>hsk_adc_close\<close> that returns without reading past the array
  keeps it.
\<close>

lemma close_scan_Inr:
  assumes "close_scan ts c n = Inr m" and "unat n \<le> 8" and "unat c < 8"
  shows "(unat m < 8 \<and> ts ! unat m \<noteq> 0)
       \<or> (unat m = 8 \<and> unat c = 0 \<and> (\<forall>i. unat n \<le> i \<and> i < 8 \<longrightarrow> ts ! i = 0))"
  using assms
proof (induction ts c n rule: close_scan.induct)
  case (1 ts c n)
  show ?case
  proof (cases "unat n < unat c + ADC_CHANNELS")
    case False
    with "1.prems" have "unat n = 8" "unat c = 0" by (simp_all add: ADC_CHANNELS_def)
    moreover from False "1.prems"(1) have "m = n" by (subst (asm) close_scan.simps) simp
    ultimately show ?thesis by simp
  next
    case True
    show ?thesis
    proof (cases "unat n < 8")
      case False
      with True "1.prems"(1) show ?thesis
        by (subst (asm) close_scan.simps) (simp add: target_at_def ADC_CHANNELS_def)
    next
      case lt: True
      then have t: "target_at ts (unat n) = Inr (ts ! unat n)"
        by (simp add: target_at_def ADC_CHANNELS_def)
      show ?thesis
      proof (cases "ts ! unat n = 0")
        case False
        with True t "1.prems"(1) have "m = n" by (subst (asm) close_scan.simps) simp
        with lt False show ?thesis by simp
      next
        case z: True
        from lt have u: "unat (n + 1) = unat n + 1" by (simp add: unat_succ_small)
        from True t z "1.prems"(1) have r: "close_scan ts c (n + 1) = Inr m"
          by (subst (asm) close_scan.simps) simp
        have "(unat m < 8 \<and> ts ! unat m \<noteq> 0)
            \<or> (unat m = 8 \<and> unat c = 0 \<and> (\<forall>i. unat (n + 1) \<le> i \<and> i < 8 \<longrightarrow> ts ! i = 0))"
          using True t z r lt u "1.prems"(3) by (intro "1.IH") simp_all
        then show ?thesis
        proof
          assume "unat m < 8 \<and> ts ! unat m \<noteq> 0"
          then show ?thesis by simp
        next
          assume a: "unat m = 8 \<and> unat c = 0 \<and> (\<forall>i. unat (n + 1) \<le> i \<and> i < 8 \<longrightarrow> ts ! i = 0)"
          have "\<forall>i. unat n \<le> i \<and> i < 8 \<longrightarrow> ts ! i = 0"
          proof (intro allI impI)
            fix i assume i: "unat n \<le> i \<and> i < 8"
            show "ts ! i = 0"
            proof (cases "i = unat n")
              case True
              with z show ?thesis by simp
            next
              case False
              with i u have "unat (n + 1) \<le> i \<and> i < 8" by simp
              with a show ?thesis by blast
            qed
          qed
          with a show ?thesis by simp
        qed
      qed
    qed
  qed
qed

lemma sched_inv_open:
  assumes "sched_inv s" and "unat c < ADC_CHANNELS" and "p \<noteq> 0"
    and "targets s1 = (targets s)[unat c := p]" and "nextChannel s1 = nextChannel s"
  shows "sched_inv (claim_cursor c s1)"
proof -
  let ?ts = "(targets s)[unat c := p]"
  from assms have len: "length (targets s) = 8" and c: "unat c < 8"
    by (simp_all add: sched_inv_def wf_state_def ADC_CHANNELS_def)
  then have co: "unat c \<in> set (open_channels ?ts)"
    using assms(3) by (simp add: open_channels_iff)
  then have ne: "open_channels ?ts \<noteq> []" by auto
  show ?thesis
  proof (cases "open_channels (targets s) = []")
    case True
    with assms(1) have "unat (nextChannel s) = ADC_CHANNELS" by (simp add: sched_inv_def)
    with co ne len assms(4,5) show ?thesis
      by (simp add: sched_inv_def claim_cursor_def wf_state_def ADC_CHANNELS_def)
  next
    case False
    with assms(1) have n: "unat (nextChannel s) \<in> set (open_channels (targets s))"
      by (simp add: sched_inv_def)
    then have "unat (nextChannel s) \<in> set (open_channels ?ts)"
      using assms(3) len by (cases "unat (nextChannel s) = unat c") (simp_all add: open_channels_iff)
    moreover from n have "unat (nextChannel s) < ADC_CHANNELS"
      by (simp add: open_channels_iff ADC_CHANNELS_def)
    ultimately show ?thesis using ne len assms(4,5)
      by (simp add: sched_inv_def claim_cursor_def wf_state_def ADC_CHANNELS_def)
  qed
qed

lemma sched_inv_open10:
  assumes "sched_inv s" and "unat c < ADC_CHANNELS" and "p \<noteq> 0"
  shows "\<exists>s'. hsk_adc_open10 c p s = Inr s' \<and> sched_inv s'"
proof (cases "drop_bit BIT_DW (ADC_GLOBCTR s) AND 1 = ADC_RESOLUTION_10")
  case False
  with assms(1) show ?thesis by (simp add: hsk_adc_open10_def)
next
  case True
  let ?s1 = "s\<lparr>targets := (targets s)[unat c := p],
      shared_writes := shared_writes s @ [TargetWrite (unat c) p False]\<rparr>"
  have "sched_inv (claim_cursor c ?s1)"
    using assms by (rule sched_inv_open) simp_all
  with True assms(2) show ?thesis
    by (simp add: hsk_adc_open10_def set_target_def)
qed

lemma sched_inv_open8:
  assumes "sched_inv s" and "unat c < ADC_CHANNELS" and "p \<noteq> 0"
  shows "\<exists>s'. hsk_adc_open8 c p s = Inr s' \<and> sched_inv s'"
proof (cases "drop_bit BIT_DW (ADC_GLOBCTR s) AND 1 = ADC_RESOLUTION_8")
  case False
  with assms(1) show ?thesis by (simp add: hsk_adc_open8_def)
next
  case True
  let ?s1 = "s\<lparr>targets := (targets s)[unat c := p],
      shared_writes := shared_writes s @ [TargetWrite (unat c) p False]\<rparr>"
  have "sched_inv (claim_cursor c ?s1)"
    using assms by (rule sched_inv_open) simp_all
  with True assms(2) show ?thesis
    by (simp add: hsk_adc_open8_def set_target_def)
qed

lemma sched_inv_close:
  assumes "sched_inv s" and "unat c < ADC_CHANNELS" and "hsk_adc_close c s = Inr s'"
  shows "sched_inv s'"
proof -
  let ?ts = "(targets s)[unat c := 0]"
  let ?s1 = "s\<lparr>targets := ?ts, shared_writes := shared_writes s @ [TargetWrite (unat c) 0 False]\<rparr>"
  from assms have len: "length (targets s) = 8" and c: "unat c < 8"
    by (simp_all add: sched_inv_def wf_state_def ADC_CHANNELS_def)
  have wf1: "wf_state ?s1" using len by (simp add: wf_state_def ADC_CHANNELS_def)
  have sub: "\<And>i. i \<in> set (open_channels ?ts) \<longleftrightarrow> i \<in> set (open_channels (targets s)) \<and> i \<noteq> unat c"
    using len c by (auto simp: open_channels_iff nth_list_update)
  from assms(2,3) have r: "close_reschedule c ?s1 = Inr s'"
    by (simp add: hsk_adc_close_def close_unregister_result)
  show ?thesis
  proof (cases "nextChannel s = c")
    case False
    with r have s': "s' = ?s1" by (simp add: close_reschedule_def)
    from False have ne: "unat (nextChannel s) \<noteq> unat c" by (simp add: word_unat_eq_iff)
    show ?thesis
    proof (cases "open_channels (targets s) = []")
      case True
      then have z: "\<forall>i<8. targets s ! i = 0" by (simp add: open_channels_empty)
      have "\<forall>i<8. ?ts ! i = 0"
      proof (intro allI impI)
        fix i :: nat assume "i < 8"
        with z len c show "?ts ! i = 0" by (cases "i = unat c") simp_all
      qed
      then have "open_channels ?ts = []" by (simp add: open_channels_empty)
      with True assms(1) wf1 show ?thesis by (simp add: s' sched_inv_def)
    next
      case False
      with assms(1) have "unat (nextChannel s) \<in> set (open_channels (targets s))"
        by (simp add: sched_inv_def)
      with ne sub have m: "unat (nextChannel s) \<in> set (open_channels ?ts)" by simp
      then have "open_channels ?ts \<noteq> []" by auto
      with m wf1 show ?thesis by (simp add: s' sched_inv_def)
    qed
  next
    case True
    with r obtain n where n: "close_scan ?ts c c = Inr n"
      and s': "s' = ?s1\<lparr>nextChannel := (if ?ts ! unat (n mod 8) = 0 then 8 else n mod 8)\<rparr>"
      by (auto simp: close_reschedule_def target_at_def unat_mod ADC_CHANNELS_def Let_def
          split: sum.splits if_splits)
    from close_scan_Inr [OF n] c
    have "(unat n < 8 \<and> ?ts ! unat n \<noteq> 0)
       \<or> (unat n = 8 \<and> unat c = 0 \<and> (\<forall>i. unat c \<le> i \<and> i < 8 \<longrightarrow> ?ts ! i = 0))"
      by simp
    then show ?thesis
    proof
      assume a: "unat n < 8 \<and> ?ts ! unat n \<noteq> 0"
      then have "unat (n mod 8) = unat n" by (simp add: unat_mod)
      with a have e: "n mod 8 = n" by (simp add: word_unat_eq_iff)
      from a have m: "unat n \<in> set (open_channels ?ts)" by (simp add: open_channels_iff)
      then have "open_channels ?ts \<noteq> []" by auto
      with a m wf1 show ?thesis by (simp add: s' e sched_inv_def wf_state_def)
    next
      assume a: "unat n = 8 \<and> unat c = 0 \<and> (\<forall>i. unat c \<le> i \<and> i < 8 \<longrightarrow> ?ts ! i = 0)"
      then have "unat (n mod 8) = 0" by (simp add: unat_mod)
      moreover from a have z: "\<forall>i<8. ?ts ! i = 0" by auto
      ultimately have "?ts ! unat (n mod 8) = 0" by simp
      moreover from z have "open_channels ?ts = []" by (simp add: open_channels_empty)
      ultimately show ?thesis using wf1
        by (simp add: s' sched_inv_def wf_state_def ADC_CHANNELS_def)
    qed
  qed
qed

lemma sched_inv_run_calls:
  assumes "sched_inv s" and "list_all call_ok cs" and "run_calls cs s = Inr s'"
  shows "sched_inv s'"
  using assms
proof (induction cs arbitrary: s)
  case Nil
  then show ?case by simp
next
  case (Cons k cs)
  from Cons.prems(3) obtain s1 where s1: "do_call k s = Inr s1" and r: "run_calls cs s1 = Inr s'"
    by (auto split: sum.splits)
  have "sched_inv s1"
  proof (cases k)
    case (Open10 c p)
    with Cons.prems(1,2) s1 sched_inv_open10 [of s c p] show ?thesis by auto
  next
    case (Open8 c p)
    with Cons.prems(1,2) s1 sched_inv_open8 [of s c p] show ?thesis by auto
  next
    case (Close c)
    with Cons.prems(1,2) s1 sched_inv_close [of s c s1] show ?thesis by auto
  qed
  with Cons.IH [of s1] Cons.prems(2) r show ?case by simp
qed

lemma sched_inv_init: "sched_inv (hsk_adc_init r t reset_state)"
proof -
  have "open_channels (replicate 8 0) = []" by (simp add: open_channels_empty)
  then show ?thesis
    by (simp add: sched_inv_def hsk_adc_init_def reset_state_def set_handler_def wf_state_def
        ADC_CHANNELS_def Let_def split: prod.splits)
qed

end
